theory Spec2Isabelle
  imports Main "HOL-Library.Word"
begin

section \<open>Go library functions used by webvtt.go\<close>

text \<open>
  A Go string is a sequence of bytes; it is modelled as \<open>string\<close> (a list of 8-bit
  characters). Indices into strings are byte offsets, as in Go.
\<close>

subsection \<open>Package strings\<close>

text \<open>\<^verbatim>\<open>strings.HasPrefix(s, prefix)\<close>: \<^verbatim>\<open>len(s) >= len(prefix) && s[:len(prefix)] == prefix\<close>.\<close>

definition HasPrefix :: "string \<Rightarrow> string \<Rightarrow> bool" where
  "HasPrefix s p = (length p \<le> length s \<and> take (length p) s = p)"

definition HasSuffix :: "string \<Rightarrow> string \<Rightarrow> bool" where
  "HasSuffix s p = (length p \<le> length s \<and> drop (length s - length p) s = p)"

text \<open>\<^verbatim>\<open>strings.CutPrefix(s, prefix)\<close> returns \<^verbatim>\<open>(s[len(prefix):], true)\<close> or \<^verbatim>\<open>(s, false)\<close>.\<close>

definition CutPrefix :: "string \<Rightarrow> string \<Rightarrow> string \<times> bool" where
  "CutPrefix s p = (if HasPrefix s p then (drop (length p) s, True) else (s, False))"

text \<open>
  \<^verbatim>\<open>s[a:b]\<close>. Go panics unless \<open>a \<le> b \<le> len(s)\<close>; every slice of the source is taken at
  offsets for which this holds, see the comments at each use.
\<close>

definition str_slice :: "string \<Rightarrow> nat \<Rightarrow> nat \<Rightarrow> string" where
  "str_slice s a b = take (b - a) (drop a s)"

text \<open>\<^verbatim>\<open>strings.Index(s, substr)\<close>: the offset of the first occurrence, or \<open>-1\<close>.\<close>

fun Index :: "string \<Rightarrow> string \<Rightarrow> int" where
  "Index [] sub = (if sub = [] then 0 else -1)"
| "Index (c # cs) sub =
     (if HasPrefix (c # cs) sub then 0
      else (let r = Index cs sub in if r < 0 then -1 else r + 1))"

text \<open>
  \<^verbatim>\<open>strings.Split(s, sep)\<close> for a separator of one byte, which is how the source calls it
  (\<^verbatim>\<open>":"\<close> and \<^verbatim>\<open>"."\<close>): the pieces between the separators, always at least one.
\<close>

fun Split :: "string \<Rightarrow> char \<Rightarrow> string list" where
  "Split [] sep = [[]]"
| "Split (c # cs) sep =
     (if c = sep then [] # Split cs sep
      else (case Split cs sep of [] \<Rightarrow> [[c]] | p # ps \<Rightarrow> (c # p) # ps))"

text \<open>\<^verbatim>\<open>strings.SplitN(s, sep, 2)\<close>: cut at the first occurrence of \<open>sep\<close>, if any.\<close>

definition SplitN2 :: "string \<Rightarrow> string \<Rightarrow> string list" where
  "SplitN2 s sep =
     (let i = Index s sep in
      if i < 0 then [s] else [take (nat i) s, drop (nat i + length sep) s])"

text \<open>\<^verbatim>\<open>strings.Join(elems, sep)\<close>.\<close>

fun Join :: "string list \<Rightarrow> string \<Rightarrow> string" where
  "Join [] sep = []"
| "Join [x] sep = x"
| "Join (x # y # ys) sep = x @ sep @ Join (y # ys) sep"

text \<open>
  \<^verbatim>\<open>unicode.IsSpace\<close> holds of the runes U+0009..U+000D, U+0020, U+0085, U+00A0, U+1680,
  U+2000..U+200A, U+2028, U+2029, U+202F, U+205F and U+3000. Their UTF-8 encodings are
  listed here. An encoding of the list starts with an ASCII byte or a UTF-8 leading byte,
  and continues with continuation bytes only, so it occurs in a string exactly where Go's
  decoder (forwards or backwards, also over invalid UTF-8) reads that rune.
\<close>

definition space_runes :: "string list" where
  "space_runes =
     [[CHR 0x09], [CHR 0x0A], [CHR 0x0B], [CHR 0x0C], [CHR 0x0D], [CHR 0x20],
      [CHR 0xC2, CHR 0x85], [CHR 0xC2, CHR 0xA0],
      [CHR 0xE1, CHR 0x9A, CHR 0x80],
      [CHR 0xE2, CHR 0x80, CHR 0x80], [CHR 0xE2, CHR 0x80, CHR 0x81],
      [CHR 0xE2, CHR 0x80, CHR 0x82], [CHR 0xE2, CHR 0x80, CHR 0x83],
      [CHR 0xE2, CHR 0x80, CHR 0x84], [CHR 0xE2, CHR 0x80, CHR 0x85],
      [CHR 0xE2, CHR 0x80, CHR 0x86], [CHR 0xE2, CHR 0x80, CHR 0x87],
      [CHR 0xE2, CHR 0x80, CHR 0x88], [CHR 0xE2, CHR 0x80, CHR 0x89],
      [CHR 0xE2, CHR 0x80, CHR 0x8A],
      [CHR 0xE2, CHR 0x80, CHR 0xA8], [CHR 0xE2, CHR 0x80, CHR 0xA9],
      [CHR 0xE2, CHR 0x80, CHR 0xAF], [CHR 0xE2, CHR 0x81, CHR 0x9F],
      [CHR 0xE3, CHR 0x80, CHR 0x80]]"

definition leading_space :: "string \<Rightarrow> string option" where
  "leading_space s = find (\<lambda>w. HasPrefix s w) space_runes"

definition trailing_space :: "string \<Rightarrow> string option" where
  "trailing_space s = find (\<lambda>w. HasSuffix s w) space_runes"

lemma space_runes_nonempty: "w \<in> set space_runes \<Longrightarrow> 0 < length w"
  by (auto simp: space_runes_def)

lemma find_SomeD: "find P xs = Some w \<Longrightarrow> w \<in> set xs \<and> P w"
  by (induction xs) (auto split: if_splits)

lemma leading_space_Some:
  "leading_space s = Some w \<Longrightarrow> 0 < length w \<and> length w \<le> length s"
  unfolding leading_space_def
  by (auto dest!: find_SomeD simp: HasPrefix_def dest: space_runes_nonempty)

lemma trailing_space_Some:
  "trailing_space s = Some w \<Longrightarrow> 0 < length w \<and> length w \<le> length s"
  unfolding trailing_space_def
  by (auto dest!: find_SomeD simp: HasSuffix_def dest: space_runes_nonempty)

function TrimLeftSpace :: "string \<Rightarrow> string" where
  "TrimLeftSpace s =
     (case leading_space s of
        None \<Rightarrow> s
      | Some w \<Rightarrow> TrimLeftSpace (drop (length w) s))"
  by pat_completeness auto
termination
proof (relation "measure length")
  fix s w assume "leading_space s = Some w"
  then have "0 < length w \<and> length w \<le> length s" by (rule leading_space_Some)
  then show "(drop (length w) s, s) \<in> measure length" by (cases s) auto
qed simp

function TrimRightSpace :: "string \<Rightarrow> string" where
  "TrimRightSpace s =
     (case trailing_space s of
        None \<Rightarrow> s
      | Some w \<Rightarrow> TrimRightSpace (take (length s - length w) s))"
  by pat_completeness auto
termination
proof (relation "measure length")
  fix s w assume "trailing_space s = Some w"
  then have "0 < length w \<and> length w \<le> length s" by (rule trailing_space_Some)
  then show "(take (length s - length w) s, s) \<in> measure length" by (cases s) auto
qed simp

text \<open>\<^verbatim>\<open>strings.TrimSpace(s)\<close>: \<open>s\<close> without its leading and trailing white-space runes.\<close>

definition TrimSpace :: "string \<Rightarrow> string" where
  "TrimSpace s = TrimRightSpace (TrimLeftSpace s)"

text \<open>
  \<^verbatim>\<open>strings.Fields(s)\<close>: the maximal runs of bytes between white-space runes. \<open>cur\<close> is the
  field being read.
\<close>

function fields_from :: "string \<Rightarrow> string \<Rightarrow> string list" where
  "fields_from [] cur = (if cur = [] then [] else [cur])"
| "fields_from (c # cs) cur =
     (case leading_space (c # cs) of
        Some w \<Rightarrow> (if cur = [] then [] else [cur]) @ fields_from (drop (length w) (c # cs)) []
      | None \<Rightarrow> fields_from cs (cur @ [c]))"
  by pat_completeness auto
termination
proof (relation "measure (\<lambda>(s, cur). length s)")
  fix c cs w and cur :: string assume "leading_space (c # cs) = Some w"
  then have "0 < length w \<and> length w \<le> length (c # cs)" by (rule leading_space_Some)
  then show "((drop (length w) (c # cs), []), (c # cs, cur)) \<in> measure (\<lambda>(s, cur). length s)"
    by simp
qed simp_all

definition Fields :: "string \<Rightarrow> string list" where
  "Fields s = fields_from s []"

subsection \<open>Package strconv\<close>

datatype num_error = ErrSyntax | ErrRange

definition is_digit :: "char \<Rightarrow> bool" where
  "is_digit c = (48 \<le> (of_char c :: nat) \<and> (of_char c :: nat) \<le> 57)"

definition digit_val :: "char \<Rightarrow> nat" where
  "digit_val c = (of_char c :: nat) - 48"

text \<open>
  The digit loop of \<^verbatim>\<open>strconv.ParseUint(s, 10, 64)\<close>: a byte that is no digit is a syntax
  error, a value beyond \<open>2^64 - 1\<close> is a range error, each reported where the scan meets it.
\<close>

fun parse_digits :: "nat \<Rightarrow> string \<Rightarrow> num_error + nat" where
  "parse_digits n [] = Inr n"
| "parse_digits n (c # cs) =
     (if \<not> is_digit c then Inl ErrSyntax
      else if 10 * n + digit_val c > 2 ^ 64 - 1 then Inl ErrRange
      else parse_digits (10 * n + digit_val c) cs)"

text \<open>
  \<^verbatim>\<open>strconv.Atoi(s)\<close> with a 64-bit \<^verbatim>\<open>int\<close>: an optional sign, then decimal digits, at least
  one; the value must lie in \<open>[-2^63, 2^63)\<close>. The result is the integer itself.
\<close>

definition Atoi :: "string \<Rightarrow> num_error + int" where
  "Atoi s =
     (case s of
        [] \<Rightarrow> Inl ErrSyntax
      | c # cs \<Rightarrow>
          (let neg = (c = CHR ''-'');
               ds = (if c = CHR ''+'' \<or> c = CHR ''-'' then cs else s)
           in if ds = [] then Inl ErrSyntax
              else (case parse_digits 0 ds of
                      Inl ErrSyntax \<Rightarrow> Inl ErrSyntax
                    | Inl ErrRange \<Rightarrow> Inl ErrRange
                    | Inr un \<Rightarrow>
                        if \<not> neg \<and> un \<ge> 2 ^ 63 then Inl ErrRange
                        else if neg \<and> un > 2 ^ 63 then Inl ErrRange
                        else Inr (if neg then - int un else int un))))"

subsection \<open>Package regexp\<close>

text \<open>
  The two patterns of the source are written with combinators. A cursor is an offset
  into the subject together with the text from that offset on; a pattern maps a cursor
  to the cursors after each of its matches, in the order in which Go's leftmost-first
  (backtracking) semantics prefers them, greedy repetitions trying the longest first.
\<close>

type_synonym cursor = "nat \<times> string"
type_synonym rx = "cursor \<Rightarrow> cursor list"

fun rx_class :: "(char \<Rightarrow> bool) \<Rightarrow> rx" where
  "rx_class P (pos, []) = []"
| "rx_class P (pos, c # cs) = (if P c then [(Suc pos, cs)] else [])"

definition rx_lit :: "char \<Rightarrow> rx" where
  "rx_lit c = rx_class (\<lambda>x. x = c)"

fun rx_seqs :: "rx list \<Rightarrow> rx" where
  "rx_seqs [] cur = [cur]"
| "rx_seqs (r # rs) cur = concat (map (rx_seqs rs) (r cur))"

text \<open>\<^verbatim>\<open>r?\<close>, preferring the match of \<open>r\<close>.\<close>

definition rx_opt :: "rx \<Rightarrow> rx" where
  "rx_opt r cur = r cur @ [cur]"

text \<open>\<^verbatim>\<open>[class]*\<close> and \<^verbatim>\<open>[class]+\<close>, longest first.\<close>

fun rx_star :: "(char \<Rightarrow> bool) \<Rightarrow> rx" where
  "rx_star P (pos, []) = [(pos, [])]"
| "rx_star P (pos, c # cs) =
     (if P c then rx_star P (Suc pos, cs) @ [(pos, c # cs)] else [(pos, c # cs)])"

definition rx_plus :: "(char \<Rightarrow> bool) \<Rightarrow> rx" where
  "rx_plus P = rx_seqs [rx_class P, rx_star P]"

text \<open>The classes \<^verbatim>\<open>\d\<close>, \<^verbatim>\<open>\s\<close> (\<^verbatim>\<open>[\t\n\f\r ]\<close> in Go) and \<^verbatim>\<open>[^>]\<close>.\<close>

definition rx_d :: "rx" where
  "rx_d = rx_class is_digit"

definition is_s :: "char \<Rightarrow> bool" where
  "is_s c = (c = CHR 0x09 \<or> c = CHR 0x0A \<or> c = CHR 0x0C \<or> c = CHR 0x0D \<or> c = CHR 0x20)"

definition not_gt :: "char \<Rightarrow> bool" where
  "not_gt c = (c \<noteq> CHR ''>'')"


section \<open>Data model of webvtt.go\<close>

text \<open>\<^verbatim>\<open>time.Duration\<close> is an \<^verbatim>\<open>int64\<close> count of nanoseconds; its arithmetic wraps.\<close>

type_synonym Duration = "64 word"

definition Millisecond :: Duration where "Millisecond = 1000000"
definition Second :: Duration where "Second = 1000 * Millisecond"
definition Minute :: Duration where "Minute = 60 * Second"
definition Hour :: Duration where "Hour = 60 * Minute"

record CueSettings =
  Vertical :: string
  Line :: string
  Position :: string
  Size :: string
  Align :: string
  Region :: string

record Voice =
  Speaker :: string
  Text :: string

record Cue =
  ID :: string
  StartTime :: Duration
  EndTime :: Duration
  Settings :: CueSettings
  Voices :: "Voice list"

text \<open>The zero values \<^verbatim>\<open>CueSettings{}\<close> and \<^verbatim>\<open>Cue{}\<close> (a nil slice is the empty list).\<close>

definition zero_settings :: CueSettings where
  "zero_settings =
     \<lparr>Vertical = [], Line = [], Position = [], Size = [], Align = [], Region = []\<rparr>"

definition zero_cue :: Cue where
  "zero_cue = \<lparr>ID = [], StartTime = 0, EndTime = 0, Settings = zero_settings, Voices = []\<rparr>"

text \<open>
  The implementations of the interface \<^verbatim>\<open>Block\<close>: \<^verbatim>\<open>Cue\<close>, \<^verbatim>\<open>Note{Text}\<close>, \<^verbatim>\<open>Style{Text}\<close> and
  \<^verbatim>\<open>Region{ID, Settings}\<close>, whose settings are a \<^verbatim>\<open>map[string]string\<close>.
\<close>

datatype Block =
  BlockCue Cue
| BlockNote string
| BlockStyle string
| BlockRegion string "string \<rightharpoonup> string"

text \<open>
  The errors of the source: those it makes with \<^verbatim>\<open>errors.New\<close>, the two wrappers made with
  \<^verbatim>\<open>fmt.Errorf\<close>, the \<^verbatim>\<open>*strconv.NumError\<close> of \<^verbatim>\<open>strconv.Atoi\<close>, and whatever error the scanner
  reports (\<open>ReadError\<close>, with its message). \<open>IndexOutOfRange\<close> stands for the run-time panic
  of an index out of range; it is there to make the functions total, and no call that the
  source makes reaches it.
\<close>

datatype error =
  EmptyInput
| MissingHeader
| MissingTimestampLine
| InvalidTimestampLine
| MissingEndTimestamp
| InvalidTimestampFormat
| NumError num_error
| InvalidStartTimestamp error
| InvalidEndTimestamp error
| ReadError string
| IndexOutOfRange

section \<open>The two patterns\<close>

text \<open>
  One timestamp of \<^verbatim>\<open>timestampLineRegex\<close>: \<^verbatim>\<open>(\d{1,2}:)?\d{2}:\d{2}\.\d{3}\<close>.
\<close>

definition rx_timestamp :: rx where
  "rx_timestamp =
     rx_seqs [rx_opt (rx_seqs [rx_d, rx_opt rx_d, rx_lit CHR '':'']),
              rx_d, rx_d, rx_lit CHR '':'', rx_d, rx_d, rx_lit CHR ''.'', rx_d, rx_d, rx_d]"

text \<open>
  \<^verbatim>\<open>timestampLineRegex.MatchString(line)\<close>, the pattern being
  \<^verbatim>\<open>^(\d{1,2}:)?\d{2}:\d{2}\.\d{3}\s+-->\s+(\d{1,2}:)?\d{2}:\d{2}\.\d{3}\<close>: anchored at the start
  of the line only, so a match is a prefix of the line.
\<close>

definition timestampLineRegex_MatchString :: "string \<Rightarrow> bool" where
  "timestampLineRegex_MatchString line =
     (rx_seqs [rx_timestamp, rx_plus is_s,
               rx_lit CHR ''-'', rx_lit CHR ''-'', rx_lit CHR ''>'',
               rx_plus is_s, rx_timestamp] (0, line) \<noteq> [])"

text \<open>
  A match of \<^verbatim>\<open>voiceStartRegex\<close>, \<^verbatim>\<open><v\s+([^>]+)>\<close>, as \<^verbatim>\<open>FindAllStringSubmatchIndex\<close> reports
  it: \<^verbatim>\<open>match[0]\<close> and \<^verbatim>\<open>match[1]\<close> bound the match, \<^verbatim>\<open>match[2]\<close> and \<^verbatim>\<open>match[3]\<close> the group.
\<close>

record submatch =
  m0 :: nat
  m1 :: nat
  m2 :: nat
  m3 :: nat

text \<open>The matches of \<^verbatim>\<open><v\s+([^>]+)>\<close> that start at a cursor, the preferred one first.\<close>

definition voiceStart_at :: "cursor \<Rightarrow> submatch list" where
  "voiceStart_at cur =
     concat (map (\<lambda>g0.
       concat (map (\<lambda>g1.
         map (\<lambda>e. \<lparr>m0 = fst cur, m1 = fst e, m2 = fst g0, m3 = fst g1\<rparr>)
           (rx_lit CHR ''>'' g1))
         (rx_plus not_gt g0)))
       (rx_seqs [rx_lit CHR ''<'', rx_lit CHR ''v'', rx_plus is_s] cur))"

lemma rx_class_step:
  "(p, r) \<in> set (rx_class P (pos, s)) \<Longrightarrow> \<exists>c. s = c # r \<and> P c \<and> p = Suc pos"
  by (cases s) (auto split: if_splits)

lemma rx_star_step:
  "(p, r) \<in> set (rx_star P (pos, s)) \<Longrightarrow>
     \<exists>w. s = w @ r \<and> (\<forall>c \<in> set w. P c) \<and> p = pos + length w"
proof (induction s arbitrary: pos)
  case Nil
  then show ?case by simp
next
  case (Cons c cs)
  show ?case
  proof (cases "P c \<and> (p, r) \<in> set (rx_star P (Suc pos, cs))")
    case True
    with Cons.IH[of "Suc pos"] obtain w where "cs = w @ r" "\<forall>c \<in> set w. P c" "p = Suc pos + length w"
      by auto
    with True show ?thesis by (intro exI[of _ "c # w"]) auto
  next
    case False
    with Cons.prems have "p = pos" "r = c # cs" by (auto split: if_splits)
    then show ?thesis by (intro exI[of _ "[]"]) auto
  qed
qed

lemma rx_plus_step:
  assumes "(p, r) \<in> set (rx_plus P (pos, s))"
  shows "\<exists>w. s = w @ r \<and> w \<noteq> [] \<and> (\<forall>c \<in> set w. P c) \<and> p = pos + length w"
proof -
  from assms obtain p1 r1 where a: "(p1, r1) \<in> set (rx_class P (pos, s))"
    and e: "(p, r) \<in> set (rx_star P (p1, r1))"
    by (auto simp: rx_plus_def)
  from rx_class_step[OF a] obtain c where c: "s = c # r1" "P c" "p1 = Suc pos" by auto
  from rx_star_step[OF e] obtain w where w: "r1 = w @ r" "\<forall>c \<in> set w. P c" "p = p1 + length w"
    by auto
  from c w show ?thesis by (intro exI[of _ "c # w"]) auto
qed

lemma voiceStart_at_shape:
  assumes "m \<in> set (voiceStart_at (pos, s))"
  shows "\<exists>w n r. s = ''<v'' @ w @ n @ ''>'' @ r \<and> w \<noteq> [] \<and> (\<forall>c \<in> set w. is_s c) \<and>
           n \<noteq> [] \<and> (\<forall>c \<in> set n. not_gt c) \<and>
           m = \<lparr>m0 = pos, m1 = pos + 2 + length w + length n + 1,
                m2 = pos + 2 + length w, m3 = pos + 2 + length w + length n\<rparr>"
proof -
  from assms obtain p0 r0 p1 r1 p2 r2 where
    g0: "(p0, r0) \<in> set (rx_seqs [rx_lit CHR ''<'', rx_lit CHR ''v'', rx_plus is_s] (pos, s))" and
    g1: "(p1, r1) \<in> set (rx_plus not_gt (p0, r0))" and
    e: "(p2, r2) \<in> set (rx_lit CHR ''>'' (p1, r1))" and
    m: "m = \<lparr>m0 = pos, m1 = p2, m2 = p0, m3 = p1\<rparr>"
    by (fastforce simp: voiceStart_at_def)
  from g0 obtain pa ra pb rb where
    a: "(pa, ra) \<in> set (rx_class (\<lambda>x. x = CHR ''<'') (pos, s))" and
    b: "(pb, rb) \<in> set (rx_class (\<lambda>x. x = CHR ''v'') (pa, ra))" and
    g0': "(p0, r0) \<in> set (rx_plus is_s (pb, rb))"
    by (fastforce simp: rx_lit_def)
  from rx_class_step[OF a] have A: "s = CHR ''<'' # ra" "pa = Suc pos" by auto
  from rx_class_step[OF b] have B: "ra = CHR ''v'' # rb" "pb = Suc pa" by auto
  from rx_plus_step[OF g0'] obtain w where
    W: "rb = w @ r0" "w \<noteq> []" "\<forall>c \<in> set w. is_s c" "p0 = pb + length w" by auto
  from rx_plus_step[OF g1] obtain n where
    N: "r0 = n @ r1" "n \<noteq> []" "\<forall>c \<in> set n. not_gt c" "p1 = p0 + length n" by auto
  from e have "(p2, r2) \<in> set (rx_class (\<lambda>x. x = CHR ''>'') (p1, r1))" by (simp add: rx_lit_def)
  from rx_class_step[OF this] have E: "r1 = CHR ''>'' # r2" "p2 = Suc p1" by auto
  show ?thesis
    using A B W N E m by (intro exI[of _ w] exI[of _ n] exI[of _ r2]) auto
qed

lemma voiceStart_at_bounds:
  assumes "m \<in> set (voiceStart_at (pos, s))"
  shows "m0 m = pos \<and> pos < m1 m \<and> m1 m - pos \<le> length s"
  using voiceStart_at_shape[OF assms] by auto

text \<open>
  \<^verbatim>\<open>voiceStartRegex.FindAllStringSubmatchIndex(text, -1)\<close>: the successive matches, each the
  preferred match at the leftmost offset where one starts, the search going on where the
  match before ended. \<open>find_all pos s\<close> searches the text \<open>s\<close> that starts at offset \<open>pos\<close>.
\<close>

function find_all :: "nat \<Rightarrow> string \<Rightarrow> submatch list" where
  "find_all pos s =
     (case voiceStart_at (pos, s) of
        m # _ \<Rightarrow> m # find_all (m1 m) (drop (m1 m - pos) s)
      | [] \<Rightarrow> (case s of [] \<Rightarrow> [] | c # cs \<Rightarrow> find_all (Suc pos) cs))"
  by pat_completeness auto
termination
proof (relation "measure (\<lambda>(pos, s). length s)")
  fix pos :: nat and s :: string and m ms assume "voiceStart_at (pos, s) = m # ms"
  then have "m \<in> set (voiceStart_at (pos, s))" by simp
  from voiceStart_at_bounds[OF this]
  show "((m1 m, drop (m1 m - pos) s), (pos, s)) \<in> measure (\<lambda>(pos, s). length s)"
    by (cases s) auto
qed simp_all

definition voiceStartRegex_FindAllStringSubmatchIndex :: "string \<Rightarrow> submatch list" where
  "voiceStartRegex_FindAllStringSubmatchIndex text = find_all 0 text"


section \<open>The timestamp decoder\<close>

text \<open>
  \<^verbatim>\<open>parseTimestamp\<close>. The seconds component \<^verbatim>\<open>secParts\<close> is split at \<^verbatim>\<open>"."\<close>: its first piece
  is the seconds, its second piece, when there is one, the milliseconds; further pieces are
  not read. On an error the source returns the duration \<open>0\<close> beside it.
\<close>

definition parseSeconds :: "string \<Rightarrow> error + (int \<times> int)" where
  "parseSeconds part =
     (case Split part CHR ''.'' of
        [] \<Rightarrow> Inl IndexOutOfRange
      | sec # frac \<Rightarrow>
          (case Atoi sec of
             Inl e \<Rightarrow> Inl (NumError e)
           | Inr seconds \<Rightarrow>
               (case frac of
                  [] \<Rightarrow> Inr (seconds, 0)
                | ms # _ \<Rightarrow>
                    (case Atoi ms of
                       Inl e \<Rightarrow> Inl (NumError e)
                     | Inr millis \<Rightarrow> Inr (seconds, millis)))))"

definition duration_of :: "int \<Rightarrow> int \<Rightarrow> int \<Rightarrow> int \<Rightarrow> Duration" where
  "duration_of hours minutes seconds millis =
     word_of_int hours * Hour + word_of_int minutes * Minute +
     word_of_int seconds * Second + word_of_int millis * Millisecond"

definition parseTimestamp :: "string \<Rightarrow> error + Duration" where
  "parseTimestamp s =
     (case Split s CHR '':'' of
        [p0, p1, p2] \<Rightarrow>
          (case Atoi p0 of
             Inl e \<Rightarrow> Inl (NumError e)
           | Inr hours \<Rightarrow>
               (case Atoi p1 of
                  Inl e \<Rightarrow> Inl (NumError e)
                | Inr minutes \<Rightarrow>
                    (case parseSeconds p2 of
                       Inl e \<Rightarrow> Inl e
                     | Inr (seconds, millis) \<Rightarrow>
                         Inr (duration_of hours minutes seconds millis))))
      | [p0, p1] \<Rightarrow>
          (case Atoi p0 of
             Inl e \<Rightarrow> Inl (NumError e)
           | Inr minutes \<Rightarrow>
               (case parseSeconds p1 of
                  Inl e \<Rightarrow> Inl e
                | Inr (seconds, millis) \<Rightarrow>
                    Inr (duration_of 0 minutes seconds millis)))
      | _ \<Rightarrow> Inl InvalidTimestampFormat)"


section \<open>The timestamp line and the cue settings\<close>

text \<open>The body of the loop over \<^verbatim>\<open>restParts[1:]\<close>: one settings token.\<close>

definition apply_setting :: "CueSettings \<Rightarrow> string \<Rightarrow> CueSettings" where
  "apply_setting settings s =
     (let idx = Index s '':'' in
      if idx > 0 then
        (let key = take (nat idx) s; val = drop (nat idx + 1) s in
         if key = ''vertical'' then settings\<lparr>Vertical := val\<rparr>
         else if key = ''line'' then settings\<lparr>Line := val\<rparr>
         else if key = ''position'' then settings\<lparr>Position := val\<rparr>
         else if key = ''size'' then settings\<lparr>Size := val\<rparr>
         else if key = ''align'' then settings\<lparr>Align := val\<rparr>
         else if key = ''region'' then settings\<lparr>Region := val\<rparr>
         else settings)
      else settings)"

text \<open>
  \<^verbatim>\<open>parseTimestampLine\<close>. Each error return of the source carries zero durations and the
  settings not yet filled in, so the result is either the error or the three values.
\<close>

definition parseTimestampLine :: "string \<Rightarrow> error + (Duration \<times> Duration \<times> CueSettings)" where
  "parseTimestampLine line =
     (case SplitN2 line ''-->'' of
        [part0, part1] \<Rightarrow>
          (let startStr = TrimSpace part0;
               rest = TrimSpace part1
           in case Fields rest of
                [] \<Rightarrow> Inl MissingEndTimestamp
              | endStr # settingParts \<Rightarrow>
                  (case parseTimestamp startStr of
                     Inl e \<Rightarrow> Inl (InvalidStartTimestamp e)
                   | Inr start \<Rightarrow>
                       (case parseTimestamp endStr of
                          Inl e \<Rightarrow> Inl (InvalidEndTimestamp e)
                        | Inr end \<Rightarrow>
                            Inr (start, end, foldl apply_setting zero_settings settingParts))))
      | _ \<Rightarrow> Inl InvalidTimestampLine)"

section \<open>The voice-span extractor\<close>

text \<open>
  The loop of \<^verbatim>\<open>parseVoices\<close> over the matches, with the variables \<^verbatim>\<open>voices\<close> and \<^verbatim>\<open>lastEnd\<close> it
  updates. \<^verbatim>\<open>matches[i+1]\<close> is the head of the matches still to come. The offsets come from
  the matches, which lie inside the text, so no slice is out of range (lemmas
  \<open>find_all_in_range\<close> and \<open>find_all_ordered\<close> below).
\<close>

fun parseVoices_loop :: "string \<Rightarrow> submatch list \<Rightarrow> Voice list \<Rightarrow> nat \<Rightarrow> Voice list" where
  "parseVoices_loop text [] voices lastEnd = voices"
| "parseVoices_loop text (match # matches) voices lastEnd =
     (let voices1 =
            (if m0 match > lastEnd then
               (let prefix = TrimSpace (str_slice text lastEnd (m0 match)) in
                if prefix \<noteq> [] \<and> length voices > 0 then
                  voices[length voices - 1 :=
                    (voices ! (length voices - 1))
                      \<lparr>Text := Text (voices ! (length voices - 1)) @ '' '' @ prefix\<rparr>]
                else if prefix \<noteq> [] then voices @ [\<lparr>Speaker = [], Text = prefix\<rparr>]
                else voices)
             else voices);
          name = str_slice text (m2 match) (m3 match);
          tagEnd = m1 match;
          voiceText =
            (case matches of
               next # _ \<Rightarrow> str_slice text tagEnd (m0 next)
             | [] \<Rightarrow> drop tagEnd text);
          idx = Index voiceText ''</v>'';
          voiceText1 = (if idx \<ge> 0 then take (nat idx) voiceText else voiceText);
          lastEnd1 = (if idx \<ge> 0 then tagEnd + nat idx + 4 else tagEnd + length voiceText)
      in parseVoices_loop text matches
           (voices1 @ [\<lparr>Speaker = name, Text = TrimSpace voiceText1\<rparr>]) lastEnd1)"

definition parseVoices :: "string \<Rightarrow> Voice list" where
  "parseVoices text =
     (let matches = voiceStartRegex_FindAllStringSubmatchIndex text in
      if length matches = 0 then [\<lparr>Speaker = [], Text = text\<rparr>]
      else parseVoices_loop text matches [] 0)"

section \<open>Blocks\<close>

text \<open>
  \<^verbatim>\<open>parseCue\<close> returns a cue and an error side by side: on an error the cue built so far
  comes with it. \<^verbatim>\<open>lines[0]\<close> on no lines would panic; \<^verbatim>\<open>parseBlock\<close> never calls it so.
\<close>

definition parseCue :: "string list \<Rightarrow> Cue \<times> error option" where
  "parseCue lines =
     (case lines of
        [] \<Rightarrow> (zero_cue, Some IndexOutOfRange)
      | first # _ \<Rightarrow>
          (let has_id = \<not> timestampLineRegex_MatchString first;
               cue = (if has_id then zero_cue\<lparr>ID := first\<rparr> else zero_cue);
               idx = (if has_id then 1 else 0 :: nat)
           in if idx \<ge> length lines then (cue, Some MissingTimestampLine)
              else (case parseTimestampLine (lines ! idx) of
                      Inl err \<Rightarrow> (cue, Some err)
                    | Inr (startTime, endTime, settings) \<Rightarrow>
                        (let cue1 = cue\<lparr>StartTime := startTime, EndTime := endTime,
                                         Settings := settings\<rparr>
                         in if idx + 1 < length lines
                            then (cue1\<lparr>Voices :=
                                    parseVoices (Join (drop (idx + 1) lines) [CHR 0x0A])\<rparr>, None)
                            else (cue1, None)))))"

text \<open>The body of the loop over the lines of a REGION block.\<close>

definition region_line :: "string \<times> (string \<rightharpoonup> string) \<Rightarrow> string \<Rightarrow> string \<times> (string \<rightharpoonup> string)" where
  "region_line region line =
     (if line = ''REGION'' then region
      else (let idx = Index line '':'' in
            if idx > 0 then
              (let key = TrimSpace (take (nat idx) line);
                   val = TrimSpace (drop (nat idx + 1) line)
               in if key = ''id'' then (val, snd region)
                  else (fst region, (snd region)(key \<mapsto> val)))
            else region))"

text \<open>
  \<^verbatim>\<open>parseBlock\<close> returns a \<^verbatim>\<open>Block\<close>, which may be nil, and an error, which may be nil. From
  \<^verbatim>\<open>parseCue\<close> it passes both values on, the cue as a non-nil \<^verbatim>\<open>Block\<close>.
\<close>

definition parseBlock :: "string list \<Rightarrow> Block option \<times> error option" where
  "parseBlock lines =
     (case lines of
        [] \<Rightarrow> (None, None)
      | first # others \<Rightarrow>
          (case CutPrefix first ''NOTE'' of
             (text, True) \<Rightarrow>
               (let text1 = TrimSpace text;
                    text2 = (if length lines > 1
                             then text1 @ [CHR 0x0A] @ Join others [CHR 0x0A] else text1)
                in (Some (BlockNote (TrimSpace text2)), None))
           | (_, False) \<Rightarrow>
               if first = ''STYLE'' then (Some (BlockStyle (Join others [CHR 0x0A])), None)
               else if first = ''REGION'' \<or> HasPrefix first ''REGION'' then
                 (let startIdx = (if first = ''REGION'' then 1 else 0 :: nat);
                      region = foldl region_line ([], Map.empty) (drop startIdx lines)
                  in (Some (BlockRegion (fst region) (snd region)), None))
               else (case parseCue lines of (cue, err) \<Rightarrow> (Some (BlockCue cue), err))))"

section \<open>The scanner, Parse and ParseAll\<close>

text \<open>
  \<^verbatim>\<open>bufio.NewScanner(r)\<close> as the source observes it: \<^verbatim>\<open>Scan\<close> succeeds once for each line, \<^verbatim>\<open>Text\<close>
  being that line without its line ending, then fails, and \<^verbatim>\<open>Err\<close> tells whether the input
  ended or the read failed. The input is taken to end or fail after finitely many lines.
\<close>

record scanner =
  scan_lines :: "string list"
  scan_err :: "error option"

text \<open>
  An item of the sequence: a block or nil, and an error or nil. \<^verbatim>\<open>yield\<close>, the consumer of
  \<^verbatim>\<open>iter.Seq2[Block, error]\<close>, takes an item, updates the consumer's state \<open>'s\<close> and tells
  whether it wants more.
\<close>

type_synonym item = "Block option \<times> error option"
type_synonym 's yield = "item \<Rightarrow> 's \<Rightarrow> bool \<times> 's"

text \<open>The end of \<^verbatim>\<open>Parse\<close>: the scanner's error, if it has one, is the last item.\<close>

definition Parse_finish :: "error option \<Rightarrow> 's yield \<Rightarrow> 's \<Rightarrow> 's" where
  "Parse_finish serr yield st =
     (case serr of None \<Rightarrow> st | Some err \<Rightarrow> snd (yield (None, Some err) st))"

text \<open>
  The loop \<^verbatim>\<open>for scanner.Scan()\<close> over the lines after the header, with the group \<^verbatim>\<open>lines\<close>
  read so far, and then the handling of the last block.
\<close>

fun Parse_loop :: "string list \<Rightarrow> string list \<Rightarrow> error option \<Rightarrow> 's yield \<Rightarrow> 's \<Rightarrow> 's" where
  "Parse_loop [] lines serr yield st =
     (if length lines > 0 then
        (case parseBlock lines of
           (_, Some err) \<Rightarrow> snd (yield (None, Some err) st)
         | (Some block, None) \<Rightarrow>
             (case yield (Some block, None) st of
                (False, st1) \<Rightarrow> st1
              | (True, st1) \<Rightarrow> Parse_finish serr yield st1)
         | (None, None) \<Rightarrow> Parse_finish serr yield st)
      else Parse_finish serr yield st)"
| "Parse_loop (line # more_lines) lines serr yield st =
     (if line = [] then
        (if length lines > 0 then
           (case parseBlock lines of
              (_, Some err) \<Rightarrow>
                (case yield (None, Some err) st of
                   (False, st1) \<Rightarrow> st1
                 | (True, st1) \<Rightarrow> Parse_loop more_lines [] serr yield st1)
            | (Some block, None) \<Rightarrow>
                (case yield (Some block, None) st of
                   (False, st1) \<Rightarrow> st1
                 | (True, st1) \<Rightarrow> Parse_loop more_lines [] serr yield st1)
            | (None, None) \<Rightarrow> Parse_loop more_lines [] serr yield st)
         else Parse_loop more_lines lines serr yield st)
      else Parse_loop more_lines (lines @ [line]) serr yield st)"

text \<open>\<^verbatim>\<open>Parse(r)\<close>, the function that takes \<^verbatim>\<open>yield\<close>.\<close>

definition Parse :: "scanner \<Rightarrow> 's yield \<Rightarrow> 's \<Rightarrow> 's" where
  "Parse r yield st =
     (case scan_lines r of
        [] \<Rightarrow>
          (case scan_err r of
             Some err \<Rightarrow> snd (yield (None, Some err) st)
           | None \<Rightarrow> snd (yield (None, Some EmptyInput) st))
      | header # body \<Rightarrow>
          if \<not> HasPrefix header ''WEBVTT'' then snd (yield (None, Some MissingHeader) st)
          else Parse_loop body [] (scan_err r) yield st)"

text \<open>
  \<^verbatim>\<open>ParseAll\<close>. The body of its \<^verbatim>\<open>range\<close> loop is the consumer: its state is \<^verbatim>\<open>vtt.Cues\<close> and the
  error it returns with, if any; returning from the loop stops the sequence. With an error
  the source returns a nil \<^verbatim>\<open>*WebVTT\<close>, so the result is the error or the \<^verbatim>\<open>WebVTT\<close>.
\<close>

definition ParseAll_body :: "(Cue list \<times> error option) yield" where
  "ParseAll_body it st =
     (case it of
        (_, Some err) \<Rightarrow> (False, (fst st, Some err))
      | (Some (BlockCue cue), None) \<Rightarrow> (True, (fst st @ [cue], snd st))
      | (_, None) \<Rightarrow> (True, st))"

record WebVTT =
  Cues :: "Cue list"

definition ParseAll :: "scanner \<Rightarrow> error + WebVTT" where
  "ParseAll r =
     (case Parse r ParseAll_body ([], None) of
        (_, Some err) \<Rightarrow> Inl err
      | (cues, None) \<Rightarrow> Inr \<lparr>Cues = cues\<rparr>)"

text \<open>The whole sequence, as a consumer that never stops receives it.\<close>

definition collect :: "item list yield" where
  "collect it acc = (True, acc @ [it])"

definition Parse_items :: "scanner \<Rightarrow> item list" where
  "Parse_items r = Parse r collect []"


section \<open>Notions used to state the properties\<close>

text \<open>
  Handing a finite sequence of items to a consumer, one after the other, until the
  consumer says it wants no more: what a \<^verbatim>\<open>range\<close> loop over a sequence does.
\<close>

fun feed :: "'s yield \<Rightarrow> item list \<Rightarrow> 's \<Rightarrow> 's" where
  "feed yield [] st = st"
| "feed yield (it # its) st =
     (case yield it st of (False, st1) \<Rightarrow> st1 | (True, st1) \<Rightarrow> feed yield its st1)"

text \<open>
  The items \<^verbatim>\<open>Parse\<close> has for its consumer, as lists: at the end of the input, for one group
  of lines, for the loop with the group \<open>lines\<close> read so far, and for the whole input.
\<close>

definition finish_items :: "error option \<Rightarrow> item list" where
  "finish_items serr = (case serr of None \<Rightarrow> [] | Some err \<Rightarrow> [(None, Some err)])"

definition group_items :: "string list \<Rightarrow> item list" where
  "group_items lines =
     (case parseBlock lines of
        (_, Some err) \<Rightarrow> [(None, Some err)]
      | (Some block, None) \<Rightarrow> [(Some block, None)]
      | (None, None) \<Rightarrow> [])"

definition group_failed :: "string list \<Rightarrow> bool" where
  "group_failed lines = (snd (parseBlock lines) \<noteq> None)"

fun loop_items :: "string list \<Rightarrow> string list \<Rightarrow> error option \<Rightarrow> item list" where
  "loop_items [] lines serr =
     (if lines = [] then finish_items serr
      else if group_failed lines then group_items lines
      else group_items lines @ finish_items serr)"
| "loop_items (line # more_lines) lines serr =
     (if line = [] then
        (if lines = [] then loop_items more_lines lines serr
         else group_items lines @ loop_items more_lines [] serr)
      else loop_items more_lines (lines @ [line]) serr)"

definition all_items :: "scanner \<Rightarrow> item list" where
  "all_items r =
     (case scan_lines r of
        [] \<Rightarrow> (case scan_err r of Some err \<Rightarrow> [(None, Some err)] | None \<Rightarrow> [(None, Some EmptyInput)])
      | header # body \<Rightarrow>
          if \<not> HasPrefix header ''WEBVTT'' then [(None, Some MissingHeader)]
          else loop_items body [] (scan_err r))"

text \<open>The first error of a sequence of items, and the cues among its blocks, in order.\<close>

fun first_error :: "item list \<Rightarrow> error option" where
  "first_error [] = None"
| "first_error ((_, Some err) # its) = Some err"
| "first_error ((_, None) # its) = first_error its"

fun cues_of :: "item list \<Rightarrow> Cue list" where
  "cues_of [] = []"
| "cues_of ((Some (BlockCue cue), _) # its) = cue # cues_of its"
| "cues_of (_ # its) = cues_of its"

text \<open>
  The block-groups of the lines after the header: the maximal runs of lines that are not
  empty.
\<close>

function groups :: "string list \<Rightarrow> string list list" where
  "groups ls =
     (case dropWhile (\<lambda>l. l = []) ls of
        [] \<Rightarrow> []
      | l # rest \<Rightarrow>
          (l # takeWhile (\<lambda>l. l \<noteq> []) rest) # groups (dropWhile (\<lambda>l. l \<noteq> []) rest))"
  by pat_completeness auto
termination
proof (relation "measure length")
  fix ls :: "string list" and l rest
  assume a: "dropWhile (\<lambda>l. l = []) ls = l # rest"
  have "length (dropWhile (\<lambda>l. l \<noteq> []) rest) \<le> length rest"
    by (rule length_dropWhile_le)
  moreover have "length (dropWhile (\<lambda>l. l = []) ls) \<le> length ls"
    by (rule length_dropWhile_le)
  ultimately show "(dropWhile (\<lambda>l. l \<noteq> []) rest, ls) \<in> measure length"
    using a by simp
qed simp

text \<open>The item of one group: the error of \<^verbatim>\<open>parseBlock\<close> alone, or else its block.\<close>

definition group_item :: "string list \<Rightarrow> item" where
  "group_item lines =
     (case parseBlock lines of
        (_, Some err) \<Rightarrow> (None, Some err)
      | (block, None) \<Rightarrow> (block, None))"

text \<open>
  What follows the items of the groups: the scanner's error, if it has one, unless the
  input ends inside a group that fails to parse (the source returns right after that
  group's error).
\<close>

definition trailer :: "string list \<Rightarrow> error option \<Rightarrow> item list" where
  "trailer body serr =
     (if body \<noteq> [] \<and> last body \<noteq> [] \<and> group_failed (last (groups body)) then []
      else finish_items serr)"

declare groups.simps [simp del]

text \<open>
  The number that a string of decimal digits denotes, and the strings that are such
  numerals.
\<close>

definition decimal :: "string \<Rightarrow> nat" where
  "decimal ds = foldl (\<lambda>n c. 10 * n + digit_val c) 0 ds"

definition digits :: "string \<Rightarrow> bool" where
  "digits ds = (ds \<noteq> [] \<and> list_all is_digit ds)"

text \<open>
  A well-formed timestamp is a text that, as a whole, matches the timestamp of
  \<^verbatim>\<open>timestampLineRegex\<close>: \<^verbatim>\<open>(\d{1,2}:)?\d{2}:\d{2}\.\d{3}\<close>. The instant it denotes is read off by
  position, from the right: three digits of milliseconds, two of seconds, two of minutes,
  and the hours before them, if any.
\<close>

definition wf_timestamp :: "string \<Rightarrow> bool" where
  "wf_timestamp s = list_ex (\<lambda>e. snd e = []) (rx_timestamp (0, s))"

definition ts_hours :: "string \<Rightarrow> nat" where
  "ts_hours s = decimal (take (length s - 10) s)"
definition ts_minutes :: "string \<Rightarrow> nat" where
  "ts_minutes s = decimal (take 2 (drop (length s - 9) s))"
definition ts_seconds :: "string \<Rightarrow> nat" where
  "ts_seconds s = decimal (take 2 (drop (length s - 6) s))"
definition ts_millis :: "string \<Rightarrow> nat" where
  "ts_millis s = decimal (drop (length s - 3) s)"

definition instant_ms :: "string \<Rightarrow> nat" where
  "instant_ms s =
     (ts_hours s * 3600 + ts_minutes s * 60 + ts_seconds s) * 1000 + ts_millis s"

text \<open>
  A text contains a voice-open marker when some part of it is \<^verbatim>\<open><v\<close>, then white space (of the
  class \<^verbatim>\<open>\s\<close>), then a name without \<^verbatim>\<open>>\<close>, then \<^verbatim>\<open>>\<close>. (The pattern needs at least one byte
  of white space and at least one byte of name; the name may itself start with white space.)
\<close>

definition has_voice_marker :: "string \<Rightarrow> bool" where
  "has_voice_marker text =
     (\<exists>pre w name rest. text = pre @ ''<v'' @ w @ name @ ''>'' @ rest \<and>
        w \<noteq> [] \<and> (\<forall>c \<in> set w. is_s c) \<and> name \<noteq> [] \<and> CHR ''>'' \<notin> set name)"

text \<open>
  One turn of the loop of \<^verbatim>\<open>parseVoices\<close>, in its parts: what it does to the voices before the
  marker, the span of the marker, the voice it appends and the offset where it goes on.
\<close>

definition add_prefix :: "string \<Rightarrow> submatch \<Rightarrow> Voice list \<Rightarrow> nat \<Rightarrow> Voice list" where
  "add_prefix text match voices lastEnd =
     (if m0 match > lastEnd then
        (let prefix = TrimSpace (str_slice text lastEnd (m0 match)) in
         if prefix \<noteq> [] \<and> length voices > 0 then
           voices[length voices - 1 :=
             (voices ! (length voices - 1))
               \<lparr>Text := Text (voices ! (length voices - 1)) @ '' '' @ prefix\<rparr>]
         else if prefix \<noteq> [] then voices @ [\<lparr>Speaker = [], Text = prefix\<rparr>]
         else voices)
      else voices)"

definition span_of :: "string \<Rightarrow> submatch \<Rightarrow> submatch list \<Rightarrow> string" where
  "span_of text match matches =
     (case matches of next # _ \<Rightarrow> str_slice text (m1 match) (m0 next) | [] \<Rightarrow> drop (m1 match) text)"

definition voice_of :: "string \<Rightarrow> submatch \<Rightarrow> submatch list \<Rightarrow> Voice" where
  "voice_of text match matches =
     (let voiceText = span_of text match matches; idx = Index voiceText ''</v>''
      in \<lparr>Speaker = str_slice text (m2 match) (m3 match),
          Text = TrimSpace (if idx \<ge> 0 then take (nat idx) voiceText else voiceText)\<rparr>)"

definition lastEnd_of :: "string \<Rightarrow> submatch \<Rightarrow> submatch list \<Rightarrow> nat" where
  "lastEnd_of text match matches =
     (let voiceText = span_of text match matches; idx = Index voiceText ''</v>''
      in if idx \<ge> 0 then m1 match + nat idx + 4 else m1 match + length voiceText)"


section \<open>Evaluation of the timestamp decoder\<close>

lemmas ts_defs =
  parseTimestamp_def parseSeconds_def Atoi_def is_digit_def digit_val_def duration_of_def
  Hour_def Minute_def Second_def Millisecond_def

section \<open>Scenario 1: a document with one cue\<close>

lemma s1_split:
  "SplitN2 ''00:00:01.000 --> 00:00:04.000'' ''-->'' = [''00:00:01.000 '', '' 00:00:04.000'']"
  by code_simp

lemma s1_trim0: "TrimSpace ''00:00:01.000 '' = ''00:00:01.000''"
  by code_simp

lemma s1_trim1: "TrimSpace '' 00:00:04.000'' = ''00:00:04.000''"
  by code_simp

lemma s1_fields: "Fields ''00:00:04.000'' = [''00:00:04.000'']"
  by code_simp

lemma s1_start: "parseTimestamp ''00:00:01.000'' = Inr Second"
  by (simp add: ts_defs)

lemma s1_end: "parseTimestamp ''00:00:04.000'' = Inr (4 * Second)"
  by (simp add: ts_defs)

lemma s1_tsline:
  "parseTimestampLine ''00:00:01.000 --> 00:00:04.000'' = Inr (Second, 4 * Second, zero_settings)"
  by (simp add: parseTimestampLine_def s1_split s1_trim0 s1_trim1 s1_fields s1_start s1_end)

lemma s1_noid: "timestampLineRegex_MatchString ''1'' = False"
  by code_simp

lemma s1_voices: "parseVoices ''Hello world.'' = [\<lparr>Speaker = [], Text = ''Hello world.''\<rparr>]"
  by code_simp

lemma s1_cue:
  "parseCue [''1'', ''00:00:01.000 --> 00:00:04.000'', ''Hello world.''] =
     (\<lparr>ID = ''1'', StartTime = Second, EndTime = 4 * Second, Settings = zero_settings,
       Voices = [\<lparr>Speaker = [], Text = ''Hello world.''\<rparr>]\<rparr>, None)"
  by (simp add: parseCue_def s1_noid s1_tsline s1_voices zero_cue_def)

lemma s1_block:
  "parseBlock [''1'', ''00:00:01.000 --> 00:00:04.000'', ''Hello world.''] =
     (Some (BlockCue \<lparr>ID = ''1'', StartTime = Second, EndTime = 4 * Second,
        Settings = zero_settings, Voices = [\<lparr>Speaker = [], Text = ''Hello world.''\<rparr>]\<rparr>), None)"
  by (simp add: parseBlock_def CutPrefix_def HasPrefix_def s1_cue)

text \<open>
  Claim C4. Parsing the lines \<^verbatim>\<open>WEBVTT\<close>, a blank line, \<^verbatim>\<open>1\<close>,
  \<^verbatim>\<open>00:00:01.000 --> 00:00:04.000\<close> and \<^verbatim>\<open>Hello world.\<close> emits exactly one item, a block and no
  error: the cue with ID \<^verbatim>\<open>1\<close>, start time one second (\<open>10^9\<close> nanoseconds), end time four
  seconds, all six settings empty, and the single voice with empty speaker and text
  \<^verbatim>\<open>Hello world.\<close>.
\<close>

theorem Parse_scenario1:
  "Parse_items \<lparr>scan_lines = [''WEBVTT'', [], ''1'', ''00:00:01.000 --> 00:00:04.000'',
                               ''Hello world.''],
                 scan_err = None\<rparr>
   = [(Some (BlockCue \<lparr>ID = ''1'', StartTime = Second, EndTime = 4 * Second,
               Settings = \<lparr>Vertical = [], Line = [], Position = [], Size = [], Align = [],
                            Region = []\<rparr>,
               Voices = [\<lparr>Speaker = [], Text = ''Hello world.''\<rparr>]\<rparr>), None)]
   \<and> Second = 1000000000"
  by (simp add: Parse_items_def Parse_def HasPrefix_def s1_block collect_def Parse_finish_def
      zero_settings_def Second_def Millisecond_def)

section \<open>What the timestamp decoder rejects\<close>

lemma parseSeconds_not_format: "parseSeconds p \<noteq> Inl InvalidTimestampFormat"
  by (auto simp: parseSeconds_def split: list.splits sum.splits)

text \<open>
  Against claim C1: the text \<^verbatim>\<open>1:02.5\<close> is not rejected. It decodes to one minute, two seconds
  and five milliseconds.
\<close>

theorem parseTimestamp_short_millis_accepted:
  "parseTimestamp ''1:02.5'' = Inr (Minute + 2 * Second + 5 * Millisecond) \<and>
   parseTimestamp ''1:02.5'' \<noteq> Inl InvalidTimestampFormat"
  by (simp add: ts_defs)

text \<open>
  Claim C1, amended. The decoder does not look at the number of digits of a component: it
  fails with \<open>InvalidTimestampFormat\<close> exactly when the text does not consist of two or three
  components separated by colons.
\<close>

theorem parseTimestamp_format_error_iff:
  "(parseTimestamp s = Inl InvalidTimestampFormat) =
     (length (Split s CHR '':'') \<noteq> 2 \<and> length (Split s CHR '':'') \<noteq> 3)"
  using parseSeconds_not_format
  by (auto simp: parseTimestamp_def split: list.splits sum.splits prod.splits)

theorem parseTimestamp_format_error_iff_witness:
  "length (Split ''1:02.5'' CHR '':'') = 2 \<and>
   parseTimestamp ''1:02.5'' \<noteq> Inl InvalidTimestampFormat \<and>
   length (Split ''1:02:03:04'' CHR '':'') = 4 \<and>
   parseTimestamp ''1:02:03:04'' = Inl InvalidTimestampFormat"
  using parseTimestamp_format_error_iff[of "''1:02.5''"]
    parseTimestamp_format_error_iff[of "''1:02:03:04''"]
  by simp

section \<open>The block classifier\<close>

text \<open>
  Claim C9. For lines whose first line starts with \<^verbatim>\<open>NOTE\<close>, is \<^verbatim>\<open>STYLE\<close> or starts with \<^verbatim>\<open>REGION\<close>,
  \<^verbatim>\<open>parseBlock\<close> returns a block that is no cue, and no error; and when \<^verbatim>\<open>parseBlock\<close> returns
  an error, the first line is none of these and the error is the one \<^verbatim>\<open>parseCue\<close> returns.
\<close>

theorem parseBlock_non_cue_infallible:
  "(lines = first # others \<and>
     (HasPrefix first ''NOTE'' \<or> first = ''STYLE'' \<or> HasPrefix first ''REGION'') \<longrightarrow>
     (\<exists>b. parseBlock lines = (Some b, None) \<and> (\<forall>c. b \<noteq> BlockCue c))) \<and>
   (snd (parseBlock lines) = Some err \<longrightarrow>
     (\<exists>first others. lines = first # others \<and> \<not> HasPrefix first ''NOTE'' \<and>
        first \<noteq> ''STYLE'' \<and> \<not> HasPrefix first ''REGION'' \<and>
        snd (parseCue lines) = Some err))"
  by (auto simp: parseBlock_def CutPrefix_def Let_def split: list.splits prod.splits if_splits)

theorem parseBlock_non_cue_infallible_witness:
  "(\<exists>b. parseBlock [''NOTE this is a note'', ''more''] = (Some b, None) \<and>
        (\<forall>c. b \<noteq> BlockCue c)) \<and>
   (\<exists>b. parseBlock [''STYLE'', ''::cue { color: red }''] = (Some b, None) \<and>
        (\<forall>c. b \<noteq> BlockCue c)) \<and>
   (\<exists>b. parseBlock [''REGION'', ''id:fred''] = (Some b, None) \<and> (\<forall>c. b \<noteq> BlockCue c)) \<and>
   snd (parseBlock [''no timestamp here'']) = Some MissingTimestampLine \<and>
   snd (parseCue [''no timestamp here'']) = Some MissingTimestampLine"
proof -
  have n: "HasPrefix ''NOTE this is a note'' ''NOTE''" by (simp add: HasPrefix_def)
  have r: "HasPrefix ''REGION'' ''REGION''" by (simp add: HasPrefix_def)
  have e: "snd (parseBlock [''no timestamp here'']) = Some MissingTimestampLine"
    by code_simp
  show ?thesis
    using parseBlock_non_cue_infallible[of "[''NOTE this is a note'', ''more'']"
        "''NOTE this is a note''" "[''more'']"]
      parseBlock_non_cue_infallible[of "[''STYLE'', ''::cue { color: red }'']"
        "''STYLE''" "[''::cue { color: red }'']"]
      parseBlock_non_cue_infallible[of "[''REGION'', ''id:fred'']" "''REGION''" "[''id:fred'']"]
      parseBlock_non_cue_infallible[of "[''no timestamp here'']" _ _ MissingTimestampLine]
      n r e
    by simp
qed

section \<open>Parse as a sequence of items\<close>

lemma feed_single: "feed yield [it] st = snd (yield it st)"
  by (cases "yield it st") (auto split: bool.splits)

lemma feed_collect: "feed collect its acc = acc @ its"
  by (induction its arbitrary: acc) (simp_all add: collect_def)

lemma Parse_finish_feed: "Parse_finish e yield st = feed yield (finish_items e) st"
  by (cases e) (simp_all add: Parse_finish_def finish_items_def feed_single del: feed.simps(2))

lemma Parse_loop_feed:
  "Parse_loop ls lines e yield st = feed yield (loop_items ls lines e) st"
proof (induction ls arbitrary: lines st)
  case Nil
  obtain b er where pb: "parseBlock lines = (b, er)" by (cases "parseBlock lines")
  show ?case
  proof (cases "lines = []")
    case True
    then show ?thesis by (simp add: Parse_finish_feed)
  next
    case False
    show ?thesis
    proof (cases er)
      case (Some err)
      with False pb show ?thesis
        by (cases b) (simp_all add: group_failed_def group_items_def feed_single del: feed.simps(2))
    next
      case None
      show ?thesis
      proof (cases b)
        case None
        with \<open>er = None\<close> False pb show ?thesis
          by (simp add: Parse_finish_feed group_failed_def group_items_def)
      next
        case (Some blk)
        with \<open>er = None\<close> False pb show ?thesis
          by (cases "yield (Some blk, None) st")
             (simp add: Parse_finish_feed group_failed_def group_items_def split: bool.splits)
      qed
    qed
  qed
next
  case (Cons l ls)
  show ?case
  proof (cases "l = []")
    case False
    then show ?thesis using Cons.IH by simp
  next
    case True
    show ?thesis
    proof (cases "lines = []")
      case True
      with \<open>l = []\<close> show ?thesis using Cons.IH by simp
    next
      case False
      obtain b er where pb: "parseBlock lines = (b, er)" by (cases "parseBlock lines")
      show ?thesis
      proof (cases er)
        case (Some err)
        with False \<open>l = []\<close> pb show ?thesis
          by (cases "yield (None, Some err) st"; cases b)
             (simp_all add: group_items_def Cons.IH split: bool.splits)
      next
        case None
        show ?thesis
        proof (cases b)
          case None
          with \<open>er = None\<close> False \<open>l = []\<close> pb show ?thesis
            by (simp add: group_items_def Cons.IH)
        next
          case (Some blk)
          with \<open>er = None\<close> False \<open>l = []\<close> pb show ?thesis
            by (cases "yield (Some blk, None) st")
               (simp add: group_items_def Cons.IH split: bool.splits)
        qed
      qed
    qed
  qed
qed

lemma Parse_feed_all: "Parse r yield st = feed yield (all_items r) st"
  unfolding Parse_def all_items_def
  by (simp add: Parse_loop_feed feed_single split: list.splits option.splits del: feed.simps(2))

lemma Parse_items_all: "Parse_items r = all_items r"
  by (simp add: Parse_items_def Parse_feed_all feed_collect)

lemma Parse_feed: "Parse r yield st = feed yield (Parse_items r) st"
  by (simp add: Parse_items_all Parse_feed_all)

section \<open>ParseAll\<close>

lemma ParseAll_body_error: "ParseAll_body (b, Some err) st = (False, (fst st, Some err))"
  by (simp add: ParseAll_body_def split: option.splits Block.splits)

lemma ParseAll_body_cue:
  "ParseAll_body (Some (BlockCue cue), None) st = (True, (fst st @ [cue], snd st))"
  by (simp add: ParseAll_body_def)

lemma ParseAll_body_other:
  "(\<forall>cue. b \<noteq> Some (BlockCue cue)) \<Longrightarrow> ParseAll_body (b, None) st = (True, st)"
  by (simp add: ParseAll_body_def split: option.splits Block.splits)

lemma feed_ParseAll_body:
  "snd (feed ParseAll_body its (cues, None)) = first_error its \<and>
   (first_error its = None \<longrightarrow> fst (feed ParseAll_body its (cues, None)) = cues @ cues_of its)"
proof (induction its arbitrary: cues)
  case Nil
  show ?case by simp
next
  case (Cons it its)
  obtain b e where it: "it = (b, e)" by (cases it)
  show ?case
  proof (cases e)
    case (Some err)
    with it show ?thesis by (simp add: ParseAll_body_error)
  next
    case None
    show ?thesis
    proof (cases "\<exists>cue. b = Some (BlockCue cue)")
      case True
      then obtain cue where "b = Some (BlockCue cue)" by blast
      with it None Cons.IH[of "cues @ [cue]"] show ?thesis
        by (simp add: ParseAll_body_cue)
    next
      case False
      have c: "cues_of ((b, None) # its) = cues_of its"
      proof (cases b)
        case None
        then show ?thesis by simp
      next
        case (Some blk)
        with False show ?thesis by (cases blk) simp_all
      qed
      from False have "ParseAll_body (b, None) (cues, None) = (True, (cues, None))"
        by (intro ParseAll_body_other) simp
      with it None c Cons.IH[of cues] show ?thesis by simp
    qed
  qed
qed

text \<open>
  Claim C3. For every input, \<^verbatim>\<open>ParseAll\<close> returns the first error of the sequence of \<^verbatim>\<open>Parse\<close>, and
  no cue with it; when the sequence has no error, it returns no error and the cues of the
  sequence, all of them and in order, the other blocks left out.
\<close>

theorem ParseAll_all_or_first_error:
  "ParseAll r =
     (case first_error (Parse_items r) of
        Some err \<Rightarrow> Inl err
      | None \<Rightarrow> Inr \<lparr>Cues = cues_of (Parse_items r)\<rparr>)"
proof -
  obtain cues e where f: "feed ParseAll_body (Parse_items r) ([], None) = (cues, e)"
    by (cases "feed ParseAll_body (Parse_items r) ([], None)")
  from feed_ParseAll_body[of "Parse_items r" "[]"] f
  have "e = first_error (Parse_items r)"
    and "first_error (Parse_items r) = None \<longrightarrow> cues = cues_of (Parse_items r)"
    by simp_all
  with f show ?thesis
    unfolding ParseAll_def Parse_feed[of r ParseAll_body]
    by (simp split: option.splits)
qed

section \<open>The header\<close>

text \<open>
  Claim C5. When the first line does not start with \<^verbatim>\<open>WEBVTT\<close>, \<^verbatim>\<open>Parse\<close> calls the consumer once,
  with the error \<open>MissingHeader\<close> and no block, and returns whatever the consumer answers: the
  sequence is that one item. When there is no line at all and the scanner has no error, the
  one item is the error \<open>EmptyInput\<close>.
\<close>

theorem Parse_header_fatal:
  "(scan_lines r = header # body \<and> (\<nexists>rest. header = ''WEBVTT'' @ rest) \<longrightarrow>
      Parse r yield st = snd (yield (None, Some MissingHeader) st) \<and>
      Parse_items r = [(None, Some MissingHeader)]) \<and>
   (scan_lines r = [] \<and> scan_err r = None \<longrightarrow>
      Parse r yield st = snd (yield (None, Some EmptyInput) st) \<and>
      Parse_items r = [(None, Some EmptyInput)])"
proof -
  have "HasPrefix header ''WEBVTT'' \<Longrightarrow> \<exists>rest. header = ''WEBVTT'' @ rest"
    unfolding HasPrefix_def by (metis append_take_drop_id)
  then show ?thesis
    by (auto simp: Parse_def Parse_items_def collect_def)
qed

theorem Parse_header_fatal_witness:
  "Parse_items \<lparr>scan_lines = [''webvtt'', [], ''00:01.000 --> 00:02.000'', ''x''], scan_err = None\<rparr>
     = [(None, Some MissingHeader)] \<and>
   Parse_items \<lparr>scan_lines = ['' WEBVTT'', [], ''00:01.000 --> 00:02.000'', ''x''], scan_err = None\<rparr>
     = [(None, Some MissingHeader)] \<and>
   Parse_items \<lparr>scan_lines = [], scan_err = None\<rparr> = [(None, Some EmptyInput)]"
  using Parse_header_fatal[of "\<lparr>scan_lines = [''webvtt'', [], ''00:01.000 --> 00:02.000'', ''x''], scan_err = None\<rparr>" "''webvtt''" _ collect "[]"]
    Parse_header_fatal[of "\<lparr>scan_lines = ['' WEBVTT'', [], ''00:01.000 --> 00:02.000'', ''x''], scan_err = None\<rparr>" "'' WEBVTT''" _ collect "[]"]
    Parse_header_fatal[of "\<lparr>scan_lines = [], scan_err = None\<rparr>" _ _ collect "[]"]
  by simp

section \<open>Block-groups and the streaming parse\<close>

lemma groups_Nil: "groups [] = []"
  by (simp add: groups.simps)

lemma groups_blank: "groups ([] # ls) = groups ls"
  by (subst groups.simps, subst (2) groups.simps) simp

lemma groups_run:
  assumes "lines \<noteq> []" "\<forall>l \<in> set lines. l \<noteq> []"
  shows "groups (lines @ [] # ls) = lines # groups ls" and "groups lines = [lines]"
proof -
  from assms obtain l rest where lr: "lines = l # rest" by (cases lines) auto
  with assms have l: "l \<noteq> []" and r: "\<forall>x \<in> set rest. x \<noteq> []" by auto
  have t1: "takeWhile (\<lambda>l. l \<noteq> []) (rest @ [] # ls) = rest"
    using r by simp
  have d1: "dropWhile (\<lambda>l. l \<noteq> []) (rest @ [] # ls) = [] # ls"
    using r by simp
  have t2: "takeWhile (\<lambda>l. l \<noteq> []) rest = rest"
    using r by simp
  have d2: "dropWhile (\<lambda>l. l \<noteq> []) rest = []"
    using r by simp
  show "groups (lines @ [] # ls) = lines # groups ls"
    using lr l t1 d1 by (subst groups.simps) (simp add: groups_blank)
  have "groups lines =
      (l # takeWhile (\<lambda>l. l \<noteq> []) rest) # groups (dropWhile (\<lambda>l. l \<noteq> []) rest)"
    using lr l by (subst groups.simps) simp
  then show "groups lines = [lines]"
    by (simp only: t2 d2 groups_Nil lr)
qed

lemma groups_nonempty: "ls \<noteq> [] \<Longrightarrow> last ls \<noteq> [] \<Longrightarrow> groups ls \<noteq> []"
proof -
  assume a: "ls \<noteq> []" "last ls \<noteq> []"
  then have "\<exists>x \<in> set ls. x \<noteq> []" using last_in_set by blast
  then have "dropWhile (\<lambda>l. l = []) ls \<noteq> []" by simp
  then show ?thesis by (subst groups.simps) (simp split: list.splits)
qed

lemma groups_members: "g \<in> set (groups ls) \<Longrightarrow> g \<noteq> [] \<and> (\<forall>l \<in> set g. l \<noteq> [])"
proof (induction ls arbitrary: g rule: groups.induct)
  case (1 ls)
  show ?case
  proof (cases "dropWhile (\<lambda>l. l = []) ls")
    case Nil
    with "1.prems" show ?thesis by (subst (asm) groups.simps) simp
  next
    case (Cons l rest)
    then have l: "l \<noteq> []" by (metis (mono_tags, lifting) hd_dropWhile list.distinct(1) list.sel(1))
    from "1.prems" Cons have "g = l # takeWhile (\<lambda>l. l \<noteq> []) rest \<or>
        g \<in> set (groups (dropWhile (\<lambda>l. l \<noteq> []) rest))"
      by (subst (asm) groups.simps) simp
    then show ?thesis
    proof
      assume "g = l # takeWhile (\<lambda>l. l \<noteq> []) rest"
      with l show ?thesis by (auto dest: set_takeWhileD)
    next
      assume "g \<in> set (groups (dropWhile (\<lambda>l. l \<noteq> []) rest))"
      with "1.IH"[OF Cons] show ?thesis by blast
    qed
  qed
qed

lemma loop_items_groups:
  "\<forall>l \<in> set lines. l \<noteq> [] \<Longrightarrow>
   loop_items ls lines e =
     concat (map group_items (groups (lines @ ls))) @ trailer (lines @ ls) e"
proof (induction ls arbitrary: lines)
  case Nil
  show ?case
  proof (cases "lines = []")
    case True
    then show ?thesis by (simp add: groups_Nil trailer_def)
  next
    case False
    with Nil have "groups lines = [lines]" "last lines \<noteq> []"
      using groups_run(2)[of lines] by auto
    with False show ?thesis by (simp add: trailer_def)
  qed
next
  case (Cons l ls)
  show ?case
  proof (cases "l = []")
    case False
    with Cons.prems have "\<forall>x \<in> set (lines @ [l]). x \<noteq> []" by simp
    from Cons.IH[OF this] False show ?thesis by simp
  next
    case True
    have ih: "loop_items ls [] e = concat (map group_items (groups ls)) @ trailer ls e"
      using Cons.IH[of "[]"] by simp
    have tr: "trailer (lines @ [] # ls) e = trailer ls e"
    proof (cases "ls = []")
      case True
      then show ?thesis by (simp add: trailer_def)
    next
      case False
      show ?thesis
      proof (cases "last ls = []")
        case True
        with False show ?thesis by (simp add: trailer_def)
      next
        case nb: False
        from groups_nonempty[OF False nb] have ne: "groups ls \<noteq> []" .
        show ?thesis
        proof (cases "lines = []")
          case True
          with False show ?thesis by (simp add: trailer_def groups_blank)
        next
          case False
          from groups_run(1)[OF False Cons.prems, of ls] ne \<open>ls \<noteq> []\<close>
          show ?thesis by (simp add: trailer_def)
        qed
      qed
    qed
    show ?thesis
    proof (cases "lines = []")
      case True
      with \<open>l = []\<close> ih tr show ?thesis by (simp add: groups_blank)
    next
      case False
      from groups_run(1)[OF False Cons.prems, of ls] \<open>l = []\<close> ih tr False
      show ?thesis by simp
    qed
  qed
qed

lemma group_items_single: "g \<noteq> [] \<Longrightarrow> group_items g = [group_item g]"
proof -
  assume "g \<noteq> []"
  then obtain f rest where g: "g = f # rest" by (cases g) auto
  obtain b er where pb: "parseBlock g = (b, er)" by (cases "parseBlock g")
  have "b \<noteq> None"
    using pb unfolding g parseBlock_def
    by (auto simp: Let_def split: prod.splits if_splits bool.splits)
  with pb show ?thesis
    by (cases er; cases b) (simp_all add: group_items_def group_item_def)
qed

lemma groups_items_map: "concat (map group_items (groups ls)) = map group_item (groups ls)"
proof -
  have "map group_items (groups ls) = map (\<lambda>g. [group_item g]) (groups ls)"
    using groups_members[of _ ls] by (intro map_cong) (auto simp: group_items_single)
  then have "concat (map group_items (groups ls)) =
      concat (map (\<lambda>g. [group_item g]) (groups ls))"
    by (simp only:)
  then show ?thesis by simp
qed

text \<open>
  Claim C6. After the header, the sequence of \<^verbatim>\<open>Parse\<close> has one item for every block-group
  of the input, in order, whether the groups before it parsed or failed: the group's block,
  or the group's error. A consumer receives these items one by one for as long as it asks
  for more. (After them comes at most the scanner's error.)
\<close>

theorem Parse_continues_after_block_error:
  "scan_lines r = header # body \<and> HasPrefix header ''WEBVTT'' \<longrightarrow>
     Parse_items r = map group_item (groups body) @ trailer body (scan_err r) \<and>
     Parse r yield st = feed yield (map group_item (groups body) @ trailer body (scan_err r)) st"
proof (intro impI, elim conjE)
  assume a: "scan_lines r = header # body" "HasPrefix header ''WEBVTT''"
  have "all_items r = loop_items body [] (scan_err r)"
    using a by (simp add: all_items_def)
  also have "\<dots> = map group_item (groups body) @ trailer body (scan_err r)"
    using loop_items_groups[of "[]" body "scan_err r"] by (simp add: groups_items_map)
  finally show "Parse_items r = map group_item (groups body) @ trailer body (scan_err r) \<and>
     Parse r yield st = feed yield (map group_item (groups body) @ trailer body (scan_err r)) st"
    by (simp add: Parse_items_all Parse_feed_all)
qed

theorem Parse_continues_after_block_error_witness:
  "Parse_items \<lparr>scan_lines = [''WEBVTT'', [], ''bad cue'', [], ''1'',
                                ''00:00:01.000 --> 00:00:04.000'', ''Hello world.''],
                  scan_err = None\<rparr> =
     [(None, Some MissingTimestampLine),
      (Some (BlockCue \<lparr>ID = ''1'', StartTime = Second, EndTime = 4 * Second,
          Settings = zero_settings, Voices = [\<lparr>Speaker = [], Text = ''Hello world.''\<rparr>]\<rparr>), None)]"
proof -
  have h: "HasPrefix ''WEBVTT'' ''WEBVTT''" by (simp add: HasPrefix_def)
  have g: "groups [[], ''bad cue'', [], ''1'', ''00:00:01.000 --> 00:00:04.000'', ''Hello world.'']
      = [[''bad cue''], [''1'', ''00:00:01.000 --> 00:00:04.000'', ''Hello world.'']]"
    by code_simp
  have e: "snd (parseBlock [''bad cue'']) = Some MissingTimestampLine"
    by code_simp
  have i1: "group_item [''bad cue''] = (None, Some MissingTimestampLine)"
    using e by (cases "parseBlock [''bad cue'']") (simp add: group_item_def)
  have i2: "group_item [''1'', ''00:00:01.000 --> 00:00:04.000'', ''Hello world.''] =
      (Some (BlockCue \<lparr>ID = ''1'', StartTime = Second, EndTime = 4 * Second,
          Settings = zero_settings, Voices = [\<lparr>Speaker = [], Text = ''Hello world.''\<rparr>]\<rparr>), None)"
    by (simp add: group_item_def s1_block)
  have t: "trailer [[], ''bad cue'', [], ''1'', ''00:00:01.000 --> 00:00:04.000'', ''Hello world.''] None = []"
    by (simp add: trailer_def finish_items_def)
  show ?thesis
    using Parse_continues_after_block_error[of
        "\<lparr>scan_lines = [''WEBVTT'', [], ''bad cue'', [], ''1'',
                         ''00:00:01.000 --> 00:00:04.000'', ''Hello world.''],
          scan_err = None\<rparr>" "''WEBVTT''"
        "[[], ''bad cue'', [], ''1'', ''00:00:01.000 --> 00:00:04.000'', ''Hello world.'']"
        collect "[]"] h
    by (simp add: g i1 i2 t)
qed

section \<open>Timestamps written as decimal numerals\<close>

lemma foldl_decimal_ge: "n \<le> foldl (\<lambda>n c. 10 * n + digit_val c) n ds"
proof (induction ds arbitrary: n)
  case Nil
  show ?case by simp
next
  case (Cons c cs)
  have "n \<le> 10 * n + digit_val c" by simp
  also have "\<dots> \<le> foldl (\<lambda>n c. 10 * n + digit_val c) (10 * n + digit_val c) cs"
    by (rule Cons.IH)
  finally show ?case by simp
qed

lemma parse_digits_numeral:
  "list_all is_digit ds \<Longrightarrow> n \<le> 2 ^ 64 - 1 \<Longrightarrow>
   parse_digits n ds =
     (if foldl (\<lambda>n c. 10 * n + digit_val c) n ds \<le> 2 ^ 64 - 1
      then Inr (foldl (\<lambda>n c. 10 * n + digit_val c) n ds) else Inl ErrRange)"
proof (induction ds arbitrary: n)
  case Nil
  then show ?case by simp
next
  case (Cons c cs)
  then have c: "is_digit c" and cs: "list_all is_digit cs" by simp_all
  show ?case
  proof (cases "10 * n + digit_val c > 2 ^ 64 - 1")
    case True
    with foldl_decimal_ge[of "10 * n + digit_val c" cs]
    have "\<not> foldl (\<lambda>n c. 10 * n + digit_val c) (10 * n + digit_val c) cs \<le> 2 ^ 64 - 1"
      by linarith
    with True c show ?thesis by simp
  next
    case False
    then have "10 * n + digit_val c \<le> 2 ^ 64 - 1" by simp
    from Cons.IH[OF cs this] False c show ?thesis by simp
  qed
qed

lemma is_digit_not_sign: "is_digit c \<Longrightarrow> c \<noteq> CHR ''+'' \<and> c \<noteq> CHR ''-'' \<and> c \<noteq> CHR '':'' \<and> c \<noteq> CHR ''.''"
  by (auto simp: is_digit_def)

lemma Atoi_numeral:
  assumes "digits ds"
  shows "Atoi ds = (if decimal ds < 2 ^ 63 then Inr (int (decimal ds)) else Inl ErrRange)"
proof -
  from assms obtain c cs where ds: "ds = c # cs" and c: "is_digit c" and all: "list_all is_digit ds"
    by (cases ds) (auto simp: digits_def)
  from is_digit_not_sign[OF c] have ns: "c \<noteq> CHR ''+''" "c \<noteq> CHR ''-''" by auto
  have pd: "parse_digits 0 ds =
     (if decimal ds \<le> 2 ^ 64 - 1 then Inr (decimal ds) else Inl ErrRange)"
    using parse_digits_numeral[OF all, of 0] by (simp add: decimal_def)
  have A: "Atoi ds =
     (case parse_digits 0 ds of
        Inl ErrSyntax \<Rightarrow> Inl ErrSyntax
      | Inl ErrRange \<Rightarrow> Inl ErrRange
      | Inr un \<Rightarrow> if un \<ge> 2 ^ 63 then Inl ErrRange else Inr (int un))"
    unfolding ds using ns
    by (simp add: Atoi_def split: sum.splits num_error.splits del: parse_digits.simps)
  show ?thesis
  proof (cases "decimal ds \<le> 2 ^ 64 - 1")
    case True
    with pd have "parse_digits 0 ds = Inr (decimal ds)" by simp
    with A show ?thesis by (simp add: not_less)
  next
    case False
    with pd have "parse_digits 0 ds = Inl ErrRange" by simp
    moreover from False have "\<not> decimal ds < 2 ^ 63" by simp
    ultimately show ?thesis using A by simp
  qed
qed

lemma Split_not_Nil: "Split s sep \<noteq> []"
  by (induction s) (auto split: list.splits)

lemma Split_no_sep: "sep \<notin> set a \<Longrightarrow> Split a sep = [a]"
  by (induction a) auto

lemma Split_append: "sep \<notin> set a \<Longrightarrow> Split (a @ sep # b) sep = a # Split b sep"
  by (induction a) auto

lemma digits_no_sep: "digits ds \<Longrightarrow> CHR '':'' \<notin> set ds \<and> CHR ''.'' \<notin> set ds"
  using is_digit_not_sign by (auto simp: digits_def list_all_iff)

lemma parseSeconds_numerals:
  assumes "digits sec" "digits ms" "decimal sec < 2 ^ 63" "decimal ms < 2 ^ 63"
  shows "parseSeconds (sec @ ''.'' @ ms) = Inr (int (decimal sec), int (decimal ms))"
  using assms digits_no_sep[of sec] digits_no_sep[of ms]
  by (simp add: parseSeconds_def Split_append Split_no_sep Atoi_numeral)

lemma Split_seconds:
  assumes "digits sec" "digits ms"
  shows "Split (sec @ ''.'' @ ms) CHR '':'' = [sec @ ''.'' @ ms]"
  using digits_no_sep[OF assms(1)] digits_no_sep[OF assms(2)]
  by (intro Split_no_sep) auto

lemma parseTimestamp_numerals3:
  assumes "digits h" "digits m" "digits sec" "digits ms"
    and "decimal h < 2 ^ 63" "decimal m < 2 ^ 63" "decimal sec < 2 ^ 63" "decimal ms < 2 ^ 63"
  shows "parseTimestamp (h @ '':'' @ m @ '':'' @ sec @ ''.'' @ ms) =
    Inr (duration_of (int (decimal h)) (int (decimal m)) (int (decimal sec)) (int (decimal ms)))"
  using assms digits_no_sep[of h] digits_no_sep[of m] Split_seconds[of sec ms]
    parseSeconds_numerals[of sec ms]
  by (simp add: parseTimestamp_def Split_append Atoi_numeral)

lemma parseTimestamp_numerals2:
  assumes "digits m" "digits sec" "digits ms"
    and "decimal m < 2 ^ 63" "decimal sec < 2 ^ 63" "decimal ms < 2 ^ 63"
  shows "parseTimestamp (m @ '':'' @ sec @ ''.'' @ ms) =
    Inr (duration_of 0 (int (decimal m)) (int (decimal sec)) (int (decimal ms)))"
  using assms digits_no_sep[of m] Split_seconds[of sec ms] parseSeconds_numerals[of sec ms]
  by (simp add: parseTimestamp_def Split_append Atoi_numeral)

lemma parseTimestamp_too_large:
  assumes "digits m" "2 ^ 63 \<le> decimal m" "CHR '':'' \<notin> set rest"
  shows "parseTimestamp (m @ '':'' @ rest) = Inl (NumError ErrRange)"
  using assms digits_no_sep[of m]
  by (simp add: parseTimestamp_def Split_append Split_no_sep Atoi_numeral)

lemma parseTimestamp_too_large3:
  assumes "digits h" "2 ^ 63 \<le> decimal h" "CHR '':'' \<notin> set mid" "CHR '':'' \<notin> set rest"
  shows "parseTimestamp (h @ '':'' @ mid @ '':'' @ rest) = Inl (NumError ErrRange)"
  using assms digits_no_sep[of h]
  by (simp add: parseTimestamp_def Split_append Split_no_sep Atoi_numeral)

text \<open>
  Against claim C10: a component is not accepted whatever its magnitude. \<open>2^63\<close> as the
  minutes is rejected, with the range error of \<^verbatim>\<open>strconv.Atoi\<close>.
\<close>

theorem parseTimestamp_range_error:
  "parseTimestamp ''9223372036854775808:00.000'' = Inl (NumError ErrRange)"
  by (simp add: ts_defs)

text \<open>
  Claim C10, amended. The decoder validates no range of its own. Components that are
  decimal numerals below \<open>2^63\<close> are accepted whatever their magnitude, in the form with
  three components and in the form with two, and so are the digits after the dot, which
  are read as a count of milliseconds whatever their number; the duration is the sum of
  the components in 64-bit arithmetic, which wraps. In a text of two components and in a
  text of three components, a numeral of \<open>2^63\<close> or more as the first component is rejected
  with the range error of \<^verbatim>\<open>strconv.Atoi\<close>, whatever the other components are.
\<close>

theorem parseTimestamp_no_range_check:
  "(digits h \<and> digits m \<and> digits sec \<and> digits ms \<and>
    decimal h < 2 ^ 63 \<and> decimal m < 2 ^ 63 \<and> decimal sec < 2 ^ 63 \<and> decimal ms < 2 ^ 63 \<longrightarrow>
      parseTimestamp (h @ '':'' @ m @ '':'' @ sec @ ''.'' @ ms) =
        Inr (word_of_nat (decimal h) * Hour + word_of_nat (decimal m) * Minute +
             word_of_nat (decimal sec) * Second + word_of_nat (decimal ms) * Millisecond) \<and>
      parseTimestamp (m @ '':'' @ sec @ ''.'' @ ms) =
        Inr (word_of_nat (decimal m) * Minute + word_of_nat (decimal sec) * Second +
             word_of_nat (decimal ms) * Millisecond)) \<and>
   (digits m \<and> 2 ^ 63 \<le> decimal m \<and> CHR '':'' \<notin> set rest \<longrightarrow>
      parseTimestamp (m @ '':'' @ rest) = Inl (NumError ErrRange)) \<and>
   (digits m \<and> 2 ^ 63 \<le> decimal m \<and> CHR '':'' \<notin> set mid \<and> CHR '':'' \<notin> set rest \<longrightarrow>
      parseTimestamp (m @ '':'' @ mid @ '':'' @ rest) = Inl (NumError ErrRange))"
  using parseTimestamp_numerals3[of h m sec ms] parseTimestamp_numerals2[of m sec ms]
    parseTimestamp_too_large[of m rest] parseTimestamp_too_large3[of m mid rest]
  by (simp add: duration_of_def)

theorem parseTimestamp_no_range_check_witness:
  "parseTimestamp ''00:99:99.999'' = Inr (99 * Minute + 99 * Second + 999 * Millisecond) \<and>
   parseTimestamp ''00:00.5'' = Inr (5 * Millisecond) \<and>
   parseTimestamp ''18446744073709551616:00'' = Inl (NumError ErrRange) \<and>
   parseTimestamp ''9223372036854775808:00:00.000'' = Inl (NumError ErrRange)"
  using parseTimestamp_no_range_check[of "''00''" "''99''" "''99''" "''999''" "[]" "[]"]
    parseTimestamp_no_range_check[of "''0''" "''00''" "''00''" "''5''" "[]" "[]"]
    parseTimestamp_no_range_check[of _ "''18446744073709551616''" _ _ "''00''" "[]"]
    parseTimestamp_no_range_check[of _ "''9223372036854775808''" _ _ "''00.000''" "''00''"]
  by (simp add: digits_def decimal_def is_digit_def digit_val_def)

section \<open>Well-formed timestamps\<close>

lemma rx_class_iff:
  "e \<in> set (rx_class P (pos, s)) \<longleftrightarrow> (\<exists>c cs. s = c # cs \<and> P c \<and> e = (Suc pos, cs))"
  by (cases s) auto

lemma rx_d_iff:
  "(p, r) \<in> set (rx_d (pos, s)) \<longleftrightarrow> (\<exists>c. s = c # r \<and> is_digit c \<and> p = Suc pos)"
  by (auto simp: rx_d_def rx_class_iff)

lemma rx_lit_iff:
  "(p, r) \<in> set (rx_lit x (pos, s)) \<longleftrightarrow> (s = x # r \<and> p = Suc pos)"
  by (auto simp: rx_lit_def rx_class_iff)

lemma rx_seqs_Cons_iff:
  "e \<in> set (rx_seqs (r # rs) cur) \<longleftrightarrow> (\<exists>p q. (p, q) \<in> set (r cur) \<and> e \<in> set (rx_seqs rs (p, q)))"
  by auto

lemma rx_tail_shape:
  "(p, r) \<in> set (rx_seqs [rx_d, rx_d, rx_lit CHR '':'', rx_d, rx_d, rx_lit CHR ''.'', rx_d, rx_d, rx_d] (pos, s))
   \<longleftrightarrow> (\<exists>a b c d e f g. s = [a, b, CHR '':'', c, d, CHR ''.'', e, f, g] @ r \<and>
        is_digit a \<and> is_digit b \<and> is_digit c \<and> is_digit d \<and> is_digit e \<and> is_digit f \<and> is_digit g \<and>
        p = pos + 9)"
  unfolding rx_seqs_Cons_iff rx_d_iff rx_lit_iff
  by (auto simp: )

lemma rx_hour_shape:
  "(p, r) \<in> set (rx_opt (rx_seqs [rx_d, rx_opt rx_d, rx_lit CHR '':'']) (pos, s))
   \<longleftrightarrow> ((p, r) = (pos, s) \<or> (\<exists>a. s = [a, CHR '':''] @ r \<and> is_digit a \<and> p = pos + 2) \<or>
         (\<exists>a b. s = [a, b, CHR '':''] @ r \<and> is_digit a \<and> is_digit b \<and> p = pos + 3))"
  unfolding rx_opt_def set_append rx_seqs_Cons_iff Un_iff rx_d_iff rx_lit_iff
  by (auto simp: rx_d_iff rx_lit_iff)

lemma wf_timestamp_shape:
  "wf_timestamp s \<longleftrightarrow>
     (\<exists>hp a b c d e f g. s = hp @ [a, b, CHR '':'', c, d, CHR ''.'', e, f, g] \<and>
        is_digit a \<and> is_digit b \<and> is_digit c \<and> is_digit d \<and> is_digit e \<and> is_digit f \<and>
        is_digit g \<and>
        (hp = [] \<or> (\<exists>x. hp = [x, CHR '':''] \<and> is_digit x) \<or>
         (\<exists>x y. hp = [x, y, CHR '':''] \<and> is_digit x \<and> is_digit y)))"
proof -
  have "wf_timestamp s \<longleftrightarrow> (\<exists>p. (p, []) \<in> set (rx_timestamp (0, s)))"
    by (force simp: wf_timestamp_def list_ex_iff)
  also have "\<dots> \<longleftrightarrow> (\<exists>p p1 q1.
      (p1, q1) \<in> set (rx_opt (rx_seqs [rx_d, rx_opt rx_d, rx_lit CHR '':'']) (0, s)) \<and>
      (p, []) \<in> set (rx_seqs [rx_d, rx_d, rx_lit CHR '':'', rx_d, rx_d, rx_lit CHR ''.'',
                                rx_d, rx_d, rx_d] (p1, q1)))"
    unfolding rx_timestamp_def by (subst rx_seqs_Cons_iff) blast
  also have "\<dots> \<longleftrightarrow>
     (\<exists>hp a b c d e f g. s = hp @ [a, b, CHR '':'', c, d, CHR ''.'', e, f, g] \<and>
        is_digit a \<and> is_digit b \<and> is_digit c \<and> is_digit d \<and> is_digit e \<and> is_digit f \<and>
        is_digit g \<and>
        (hp = [] \<or> (\<exists>x. hp = [x, CHR '':''] \<and> is_digit x) \<or>
         (\<exists>x y. hp = [x, y, CHR '':''] \<and> is_digit x \<and> is_digit y)))"
  proof (rule iffI)
    assume "\<exists>p p1 q1.
      (p1, q1) \<in> set (rx_opt (rx_seqs [rx_d, rx_opt rx_d, rx_lit CHR '':'']) (0, s)) \<and>
      (p, []) \<in> set (rx_seqs [rx_d, rx_d, rx_lit CHR '':'', rx_d, rx_d, rx_lit CHR ''.'',
                                rx_d, rx_d, rx_d] (p1, q1))"
    then obtain p p1 q1 where
      h: "(p1, q1) \<in> set (rx_opt (rx_seqs [rx_d, rx_opt rx_d, rx_lit CHR '':'']) (0, s))" and
      t: "(p, []) \<in> set (rx_seqs [rx_d, rx_d, rx_lit CHR '':'', rx_d, rx_d, rx_lit CHR ''.'',
                                rx_d, rx_d, rx_d] (p1, q1))"
      by (elim exE conjE)
    note H = h[unfolded rx_hour_shape] and T = t[unfolded rx_tail_shape]
    from T obtain a b c d e f g where
      q1: "q1 = [a, b, CHR '':'', c, d, CHR ''.'', e, f, g] @ []" and
      dg: "is_digit a" "is_digit b" "is_digit c" "is_digit d" "is_digit e" "is_digit f" "is_digit g"
      by (elim exE conjE)
    from H obtain hp where hp: "s = hp @ q1"
      "hp = [] \<or> (\<exists>x. hp = [x, CHR '':''] \<and> is_digit x) \<or>
         (\<exists>x y. hp = [x, y, CHR '':''] \<and> is_digit x \<and> is_digit y)"
      by (elim disjE exE conjE) (simp_all del: append.simps)
    with q1[simplified] dg show "\<exists>hp a b c d e f g. s = hp @ [a, b, CHR '':'', c, d, CHR ''.'', e, f, g] \<and>
        is_digit a \<and> is_digit b \<and> is_digit c \<and> is_digit d \<and> is_digit e \<and> is_digit f \<and>
        is_digit g \<and>
        (hp = [] \<or> (\<exists>x. hp = [x, CHR '':''] \<and> is_digit x) \<or>
         (\<exists>x y. hp = [x, y, CHR '':''] \<and> is_digit x \<and> is_digit y))"
      by blast
  next
    assume "\<exists>hp a b c d e f g. s = hp @ [a, b, CHR '':'', c, d, CHR ''.'', e, f, g] \<and>
        is_digit a \<and> is_digit b \<and> is_digit c \<and> is_digit d \<and> is_digit e \<and> is_digit f \<and>
        is_digit g \<and>
        (hp = [] \<or> (\<exists>x. hp = [x, CHR '':''] \<and> is_digit x) \<or>
         (\<exists>x y. hp = [x, y, CHR '':''] \<and> is_digit x \<and> is_digit y))"
    then obtain hp a b c d e f g where
      s: "s = hp @ [a, b, CHR '':'', c, d, CHR ''.'', e, f, g]" and
      dg: "is_digit a" "is_digit b" "is_digit c" "is_digit d" "is_digit e" "is_digit f" "is_digit g" and
      hp: "hp = [] \<or> (\<exists>x. hp = [x, CHR '':''] \<and> is_digit x) \<or>
         (\<exists>x y. hp = [x, y, CHR '':''] \<and> is_digit x \<and> is_digit y)"
      by (elim exE conjE)
    let ?q = "[a, b, CHR '':'', c, d, CHR ''.'', e, f, g]"
    have T: "(length hp + 9, []) \<in> set (rx_seqs [rx_d, rx_d, rx_lit CHR '':'', rx_d, rx_d,
         rx_lit CHR ''.'', rx_d, rx_d, rx_d] (length hp, ?q))"
      unfolding rx_tail_shape using dg by simp
    have H: "(length hp, ?q) \<in> set (rx_opt (rx_seqs [rx_d, rx_opt rx_d, rx_lit CHR '':'']) (0, s))"
      unfolding rx_hour_shape using hp s by auto
    from T H show "\<exists>p p1 q1.
      (p1, q1) \<in> set (rx_opt (rx_seqs [rx_d, rx_opt rx_d, rx_lit CHR '':'']) (0, s)) \<and>
      (p, []) \<in> set (rx_seqs [rx_d, rx_d, rx_lit CHR '':'', rx_d, rx_d, rx_lit CHR ''.'',
                                rx_d, rx_d, rx_d] (p1, q1))"
      by blast
  qed
  finally show ?thesis .
qed

lemma decimal_bound_aux:
  "list_all is_digit ds \<Longrightarrow> foldl (\<lambda>n c. 10 * n + digit_val c) n ds < (n + 1) * 10 ^ length ds"
proof (induction ds arbitrary: n)
  case Nil
  show ?case by simp
next
  case (Cons c cs)
  then have "is_digit c" and cs: "list_all is_digit cs" by simp_all
  then have c: "digit_val c \<le> 9" by (auto simp: is_digit_def digit_val_def)
  have "foldl (\<lambda>n c. 10 * n + digit_val c) (10 * n + digit_val c) cs
      < (10 * n + digit_val c + 1) * 10 ^ length cs"
    by (rule Cons.IH[OF cs])
  also have "\<dots> \<le> (10 * n + 10) * 10 ^ length cs"
    using c by (intro mult_right_mono) auto
  finally show ?case by (simp add: algebra_simps)
qed

lemma decimal_bound: "list_all is_digit ds \<Longrightarrow> decimal ds < 10 ^ length ds"
  using decimal_bound_aux[of ds 0] by (simp add: decimal_def)

lemma sint_word64: "0 \<le> x \<Longrightarrow> x < 2 ^ 63 \<Longrightarrow> sint (word_of_int x :: 64 word) = x"
  by (simp add: int_word_sint)

lemma sint_duration_of:
  assumes "H \<le> 99" "M \<le> 99" "S \<le> 99" "F \<le> 999"
  shows "sint (duration_of (int H) (int M) (int S) (int F)) =
     (((int H * 3600 + int M * 60 + int S) * 1000 + int F) * 1000000)"
proof -
  let ?x = "((int H * 3600 + int M * 60 + int S) * 1000 + int F) * 1000000"
  have d: "duration_of (int H) (int M) (int S) (int F) = word_of_int ?x"
    by (simp add: duration_of_def Hour_def Minute_def Second_def Millisecond_def algebra_simps)
  have "0 \<le> ?x" by simp
  moreover have "?x < 2 ^ 63" using assms by simp
  ultimately show ?thesis
    unfolding d by (rule sint_word64)
qed

lemma decimal_le:
  assumes "list_all is_digit ds" "length ds \<le> k"
  shows "decimal ds \<le> 10 ^ k - 1"
proof -
  have "decimal ds < 10 ^ length ds" by (rule decimal_bound[OF assms(1)])
  also have "(10::nat) ^ length ds \<le> 10 ^ k" using assms(2) by (intro power_increasing) auto
  finally show ?thesis by simp
qed

lemma decode3:
  assumes "digits h" "length h \<le> 2" "digits m" "length m = 2" "digits sec" "length sec = 2"
    "digits ms" "length ms = 3"
  shows "\<exists>d. parseTimestamp (h @ '':'' @ m @ '':'' @ sec @ ''.'' @ ms) = Inr d \<and>
     sint d = int (instant_ms (h @ '':'' @ m @ '':'' @ sec @ ''.'' @ ms)) * 1000000"
proof -
  let ?s = "h @ '':'' @ m @ '':'' @ sec @ ''.'' @ ms"
  have b: "decimal h \<le> 99" "decimal m \<le> 99" "decimal sec \<le> 99" "decimal ms \<le> 999"
    using decimal_le[of h 2] decimal_le[of m 2] decimal_le[of sec 2] decimal_le[of ms 3] assms
    by (simp_all add: digits_def)
  then have lt: "decimal h < 2 ^ 63" "decimal m < 2 ^ 63" "decimal sec < 2 ^ 63" "decimal ms < 2 ^ 63"
    by simp_all
  have p: "parseTimestamp ?s =
      Inr (duration_of (int (decimal h)) (int (decimal m)) (int (decimal sec)) (int (decimal ms)))"
    by (rule parseTimestamp_numerals3[OF assms(1,3,5,7) lt])
  have i: "instant_ms ?s = (decimal h * 3600 + decimal m * 60 + decimal sec) * 1000 + decimal ms"
    using assms(4,6,8)
    by (simp add: instant_ms_def ts_hours_def ts_minutes_def ts_seconds_def ts_millis_def)
  show ?thesis
    unfolding p i using sint_duration_of[OF b] by simp
qed

lemma decode2:
  assumes "digits m" "length m = 2" "digits sec" "length sec = 2" "digits ms" "length ms = 3"
  shows "\<exists>d. parseTimestamp (m @ '':'' @ sec @ ''.'' @ ms) = Inr d \<and>
     sint d = int (instant_ms (m @ '':'' @ sec @ ''.'' @ ms)) * 1000000"
proof -
  let ?s = "m @ '':'' @ sec @ ''.'' @ ms"
  have b: "(0::nat) \<le> 99" "decimal m \<le> 99" "decimal sec \<le> 99" "decimal ms \<le> 999"
    using decimal_le[of m 2] decimal_le[of sec 2] decimal_le[of ms 3] assms
    by (simp_all add: digits_def)
  then have lt: "decimal m < 2 ^ 63" "decimal sec < 2 ^ 63" "decimal ms < 2 ^ 63"
    by simp_all
  have p: "parseTimestamp ?s =
      Inr (duration_of 0 (int (decimal m)) (int (decimal sec)) (int (decimal ms)))"
    by (rule parseTimestamp_numerals2[OF assms(1,3,5) lt])
  have i: "instant_ms ?s = (0 * 3600 + decimal m * 60 + decimal sec) * 1000 + decimal ms"
    using assms(2,4,6)
    by (simp add: instant_ms_def ts_hours_def ts_minutes_def ts_seconds_def ts_millis_def
        decimal_def)
  show ?thesis
    unfolding p i using sint_duration_of[OF b] by simp
qed

lemma wf_timestamp_decode:
  assumes "wf_timestamp s"
  shows "\<exists>d. parseTimestamp s = Inr d \<and> sint d = int (instant_ms s) * 1000000"
proof -
  from assms[unfolded wf_timestamp_shape] obtain hp a b c d e f g where
    s: "s = hp @ [a, b, CHR '':'', c, d, CHR ''.'', e, f, g]" and
    dg: "is_digit a" "is_digit b" "is_digit c" "is_digit d" "is_digit e" "is_digit f" "is_digit g" and
    hp: "hp = [] \<or> (\<exists>x. hp = [x, CHR '':''] \<and> is_digit x) \<or>
         (\<exists>x y. hp = [x, y, CHR '':''] \<and> is_digit x \<and> is_digit y)"
    by (elim exE conjE)
  have m: "digits [a, b]" "length [a, b] = 2" and sec: "digits [c, d]" "length [c, d] = 2"
    and ms: "digits [e, f, g]" "length [e, f, g] = 3"
    using dg by (simp_all add: digits_def)
  from hp show ?thesis
  proof (elim disjE exE conjE)
    assume "hp = []"
    then have "s = [a, b] @ '':'' @ [c, d] @ ''.'' @ [e, f, g]" using s by simp
    then show ?thesis using decode2[OF m sec ms] by simp
  next
    fix x assume "hp = [x, CHR '':'']" "is_digit x"
    then have "s = [x] @ '':'' @ [a, b] @ '':'' @ [c, d] @ ''.'' @ [e, f, g]" "digits [x]" "length [x] \<le> 2"
      using s by (simp_all add: digits_def)
    then show ?thesis using decode3[OF _ _ m sec ms, of "[x]"] by simp
  next
    fix x y assume "hp = [x, y, CHR '':'']" "is_digit x" "is_digit y"
    then have "s = [x, y] @ '':'' @ [a, b] @ '':'' @ [c, d] @ ''.'' @ [e, f, g]" "digits [x, y]" "length [x, y] \<le> 2"
      using s by (simp_all add: digits_def)
    then show ?thesis using decode3[OF _ _ m sec ms, of "[x, y]"] by simp
  qed
qed

text \<open>
  Claim C8. The texts \<^verbatim>\<open>01:02:03.040\<close> and \<^verbatim>\<open>62:03.040\<close> decode to equal durations. Every
  well-formed text decodes, without error, to the duration whose count of nanoseconds is
  exactly its hours times 3600 plus its minutes times 60 plus its seconds, in seconds, plus
  its milliseconds; so two well-formed texts that denote the same instant decode to the same
  duration.
\<close>

theorem parseTimestamp_same_instant:
  "parseTimestamp ''01:02:03.040'' = parseTimestamp ''62:03.040'' \<and>
   (wf_timestamp s \<longrightarrow>
      (\<exists>d. parseTimestamp s = Inr d \<and> sint d = int (instant_ms s) * 1000000)) \<and>
   (wf_timestamp s \<and> wf_timestamp t \<and> instant_ms s = instant_ms t \<longrightarrow>
      parseTimestamp s = parseTimestamp t)"
proof (intro conjI impI)
  show "parseTimestamp ''01:02:03.040'' = parseTimestamp ''62:03.040''"
    by (simp add: ts_defs)
  show "\<exists>d. parseTimestamp s = Inr d \<and> sint d = int (instant_ms s) * 1000000"
    if "wf_timestamp s" using wf_timestamp_decode[OF that] .
  show "parseTimestamp s = parseTimestamp t"
    if "wf_timestamp s \<and> wf_timestamp t \<and> instant_ms s = instant_ms t"
  proof -
    from that wf_timestamp_decode[of s] wf_timestamp_decode[of t]
    obtain d1 d2 where "parseTimestamp s = Inr d1" "parseTimestamp t = Inr d2" "sint d1 = sint d2"
      by auto
    then show ?thesis by (simp add: signed_word_eqI)
  qed
qed

theorem parseTimestamp_same_instant_witness:
  "wf_timestamp ''01:02:03.040'' \<and> wf_timestamp ''62:03.040'' \<and>
   instant_ms ''01:02:03.040'' = 3723040 \<and> instant_ms ''62:03.040'' = 3723040 \<and>
   parseTimestamp ''01:02:03.040'' = parseTimestamp ''62:03.040'' \<and>
   (\<exists>d. parseTimestamp ''01:02:03.040'' = Inr d \<and> sint d = 3723040000000)"
proof -
  have w: "wf_timestamp ''01:02:03.040''" "wf_timestamp ''62:03.040''"
    by code_simp+
  have i: "instant_ms ''01:02:03.040'' = 3723040" "instant_ms ''62:03.040'' = 3723040"
    by (simp_all add: instant_ms_def ts_hours_def ts_minutes_def ts_seconds_def ts_millis_def
        decimal_def digit_val_def)
  from parseTimestamp_same_instant[of "''01:02:03.040''" "''62:03.040''"] w i
  have e: "parseTimestamp ''01:02:03.040'' = parseTimestamp ''62:03.040''"
    and x: "\<exists>d. parseTimestamp ''01:02:03.040'' = Inr d \<and>
      sint d = int (instant_ms ''01:02:03.040'') * 1000000"
    by blast+
  from x have x': "\<exists>d. parseTimestamp ''01:02:03.040'' = Inr d \<and> sint d = 3723040000000"
    unfolding i by simp
  show ?thesis
    by (intro conjI w i e x')
qed

section \<open>Voice-open markers\<close>

lemma has_voice_marker_Cons: "has_voice_marker cs \<Longrightarrow> has_voice_marker (c # cs)"
proof -
  assume "has_voice_marker cs"
  then obtain pre w name rest where
    "cs = pre @ ''<v'' @ w @ name @ ''>'' @ rest" "w \<noteq> []" "\<forall>c \<in> set w. is_s c" "name \<noteq> []"
    "CHR ''>'' \<notin> set name"
    unfolding has_voice_marker_def by blast
  then have "c # cs = (c # pre) @ ''<v'' @ w @ name @ ''>'' @ rest \<and> w \<noteq> [] \<and>
     (\<forall>c \<in> set w. is_s c) \<and> name \<noteq> [] \<and> CHR ''>'' \<notin> set name"
    by simp
  then show ?thesis unfolding has_voice_marker_def by blast
qed

lemma find_all_sound: "find_all pos s \<noteq> [] \<Longrightarrow> has_voice_marker s"
proof (induction pos s rule: find_all.induct)
  case (1 pos s)
  show ?case
  proof (cases "voiceStart_at (pos, s)")
    case (Cons m ms)
    then have "m \<in> set (voiceStart_at (pos, s))" by simp
    from voiceStart_at_shape[OF this] obtain w n r where
      "s = [] @ ''<v'' @ w @ n @ ''>'' @ r" "w \<noteq> []" "\<forall>c \<in> set w. is_s c" "n \<noteq> []"
      "\<forall>c \<in> set n. not_gt c"
      by auto
    then show ?thesis unfolding has_voice_marker_def not_gt_def by blast
  next
    case Nil
    show ?thesis
    proof (cases s)
      case Nil
      with \<open>voiceStart_at (pos, s) = []\<close> "1.prems" show ?thesis by simp
    next
      case (Cons c cs)
      with \<open>voiceStart_at (pos, s) = []\<close> "1.prems" have "find_all (Suc pos) cs \<noteq> []" by simp
      from "1.IH"(1)[OF \<open>voiceStart_at (pos, s) = []\<close> Cons this] Cons
      show ?thesis by (simp add: has_voice_marker_Cons)
    qed
  qed
qed

lemma rx_star_complete:
  "\<forall>c \<in> set w. P c \<Longrightarrow> (pos + length w, r) \<in> set (rx_star P (pos, w @ r))"
proof (induction w arbitrary: pos)
  case Nil
  show ?case by (cases r) simp_all
next
  case (Cons c w)
  from Cons.prems have "\<forall>c \<in> set w. P c" by simp
  from Cons.IH[OF this, of "Suc pos"]
  have "(Suc pos + length w, r) \<in> set (rx_star P (Suc pos, w @ r))" .
  with Cons.prems show ?case by simp
qed

lemma rx_plus_complete:
  "w \<noteq> [] \<Longrightarrow> \<forall>c \<in> set w. P c \<Longrightarrow> (pos + length w, r) \<in> set (rx_plus P (pos, w @ r))"
proof -
  assume "w \<noteq> []" and all: "\<forall>c \<in> set w. P c"
  then obtain c w' where w: "w = c # w'" by (cases w) auto
  with all have "P c" "\<forall>c \<in> set w'. P c" by simp_all
  from rx_star_complete[OF this(2), of "Suc pos" r] \<open>P c\<close> show ?thesis
    by (simp add: rx_plus_def w)
qed

lemma voiceStart_at_complete:
  assumes "w \<noteq> []" "\<forall>c \<in> set w. is_s c" "n \<noteq> []" "CHR ''>'' \<notin> set n"
  shows "voiceStart_at (pos, ''<v'' @ w @ n @ ''>'' @ r) \<noteq> []"
proof -
  have g0: "(pos + 2 + length w, n @ ''>'' @ r) \<in>
      set (rx_seqs [rx_lit CHR ''<'', rx_lit CHR ''v'', rx_plus is_s] (pos, ''<v'' @ w @ n @ ''>'' @ r))"
    using rx_plus_complete[OF assms(1,2), of "Suc (Suc pos)" "n @ ''>'' @ r"]
    by (simp add: rx_lit_def)
  have "\<forall>c \<in> set n. not_gt c" using assms(4) by (auto simp: not_gt_def)
  from rx_plus_complete[OF assms(3) this, of "pos + 2 + length w" "''>'' @ r"]
  have g1: "(pos + 2 + length w + length n, ''>'' @ r) \<in>
      set (rx_plus not_gt (pos + 2 + length w, n @ ''>'' @ r))" .
  have e: "(Suc (pos + 2 + length w + length n), r) \<in>
      set (rx_lit CHR ''>'' (pos + 2 + length w + length n, ''>'' @ r))"
    by (simp add: rx_lit_def)
  have "\<lparr>m0 = pos, m1 = Suc (pos + 2 + length w + length n), m2 = pos + 2 + length w,
          m3 = pos + 2 + length w + length n\<rparr> \<in> set (voiceStart_at (pos, ''<v'' @ w @ n @ ''>'' @ r))"
    unfolding voiceStart_at_def set_concat set_map
    using g0 g1 e by force
  then show ?thesis by auto
qed

lemma find_all_complete: "has_voice_marker s \<Longrightarrow> find_all pos s \<noteq> []"
proof -
  assume "has_voice_marker s"
  then obtain pre w name rest where
    s: "s = pre @ ''<v'' @ w @ name @ ''>'' @ rest" and
    m: "w \<noteq> []" "\<forall>c \<in> set w. is_s c" "name \<noteq> []" "CHR ''>'' \<notin> set name"
    unfolding has_voice_marker_def by blast
  show ?thesis
    unfolding s
  proof (induction pre arbitrary: pos)
    case Nil
    from voiceStart_at_complete[OF m, of pos rest] show ?case
      by (subst find_all.simps) (simp split: list.splits)
  next
    case (Cons c pre)
    show ?case
      using Cons.IH[of "Suc pos"]
      by (subst find_all.simps) (simp split: list.splits)
  qed
qed

lemma has_voice_marker_iff:
  "has_voice_marker text \<longleftrightarrow> voiceStartRegex_FindAllStringSubmatchIndex text \<noteq> []"
  using find_all_sound find_all_complete
  by (auto simp: voiceStartRegex_FindAllStringSubmatchIndex_def)

text \<open>
  The matches lie inside the text, each group inside its match, and one match ends before
  the next starts: the offsets at which the loop of \<^verbatim>\<open>parseVoices\<close> slices the text are in
  range.
\<close>

lemma voiceStart_at_range:
  assumes "m \<in> set (voiceStart_at (pos, s))"
  shows "m0 m = pos \<and> m0 m \<le> m2 m \<and> m2 m \<le> m3 m \<and> m3 m \<le> m1 m \<and> m1 m \<le> pos + length s"
  using voiceStart_at_shape[OF assms] by auto

lemma find_all_in_range:
  "m \<in> set (find_all pos s) \<Longrightarrow>
   pos \<le> m0 m \<and> m0 m \<le> m2 m \<and> m2 m \<le> m3 m \<and> m3 m \<le> m1 m \<and> m1 m \<le> pos + length s"
proof (induction pos s arbitrary: m rule: find_all.induct)
  case (1 pos s)
  show ?case
  proof (cases "voiceStart_at (pos, s)")
    case (Cons a as)
    then have "a \<in> set (voiceStart_at (pos, s))" by simp
    note r = voiceStart_at_range[OF this]
    from "1.prems" Cons have "m = a \<or> m \<in> set (find_all (m1 a) (drop (m1 a - pos) s))"
      by (subst (asm) find_all.simps) simp
    then show ?thesis
    proof
      assume "m = a"
      with r show ?thesis by simp
    next
      assume "m \<in> set (find_all (m1 a) (drop (m1 a - pos) s))"
      from "1.IH"(2)[OF Cons this] r show ?thesis by auto
    qed
  next
    case Nil
    show ?thesis
    proof (cases s)
      case Nil
      with \<open>voiceStart_at (pos, s) = []\<close> "1.prems" show ?thesis
        by (subst (asm) find_all.simps) simp
    next
      case (Cons c cs)
      with \<open>voiceStart_at (pos, s) = []\<close> "1.prems" have "m \<in> set (find_all (Suc pos) cs)"
        by (subst (asm) find_all.simps) simp
      from "1.IH"(1)[OF \<open>voiceStart_at (pos, s) = []\<close> Cons this] Cons show ?thesis by auto
    qed
  qed
qed

lemma find_all_ordered: "sorted_wrt (\<lambda>a b. m1 a \<le> m0 b) (find_all pos s)"
proof (induction pos s rule: find_all.induct)
  case (1 pos s)
  show ?case
  proof (cases "voiceStart_at (pos, s)")
    case (Cons a as)
    have "\<forall>b \<in> set (find_all (m1 a) (drop (m1 a - pos) s)). m1 a \<le> m0 b"
      using find_all_in_range by blast
    with "1.IH"(2)[OF Cons] Cons show ?thesis
      by (subst find_all.simps) simp
  next
    case Nil
    show ?thesis
    proof (cases s)
      case Nil
      with \<open>voiceStart_at (pos, s) = []\<close> show ?thesis by (subst find_all.simps) simp
    next
      case (Cons c cs)
      with "1.IH"(1)[OF \<open>voiceStart_at (pos, s) = []\<close> Cons] \<open>voiceStart_at (pos, s) = []\<close>
      show ?thesis by (subst find_all.simps) simp
    qed
  qed
qed

section \<open>The loop of parseVoices\<close>

lemma parseVoices_loop_step:
  "parseVoices_loop text (match # matches) voices lastEnd =
     parseVoices_loop text matches
       (add_prefix text match voices lastEnd @ [voice_of text match matches])
       (lastEnd_of text match matches)"
  by (simp add: add_prefix_def voice_of_def lastEnd_of_def span_of_def Let_def)

lemma length_add_prefix:
  "voices \<noteq> [] \<Longrightarrow> length (add_prefix text match voices lastEnd) = length voices"
  by (simp add: add_prefix_def Let_def)

lemma add_prefix_keep:
  assumes "j + 1 < length voices"
  shows "add_prefix text match voices lastEnd ! j = voices ! j"
proof -
  from assms have "voices \<noteq> []" "length voices - 1 \<noteq> j" by auto
  then show ?thesis by (simp add: add_prefix_def Let_def)
qed

lemma add_prefix_last:
  "voices \<noteq> [] \<Longrightarrow>
   add_prefix text match voices lastEnd ! (length voices - 1) =
     (let prefix = TrimSpace (str_slice text lastEnd (m0 match)) in
      if m0 match > lastEnd \<and> prefix \<noteq> []
      then (last voices)\<lparr>Text := Text (last voices) @ '' '' @ prefix\<rparr>
      else last voices)"
  by (simp add: add_prefix_def Let_def last_conv_nth)

lemma parseVoices_loop_length:
  "voices \<noteq> [] \<Longrightarrow>
   length (parseVoices_loop text matches voices lastEnd) = length voices + length matches"
proof (induction matches arbitrary: voices lastEnd)
  case Nil
  show ?case by simp
next
  case (Cons m ms)
  show ?case
    unfolding parseVoices_loop_step
    using Cons.IH[of "add_prefix text m voices lastEnd @ [voice_of text m ms]"]
      length_add_prefix[OF Cons.prems]
    by simp
qed

lemma parseVoices_loop_keep:
  "j + 1 < length voices \<Longrightarrow>
   parseVoices_loop text matches voices lastEnd ! j = voices ! j"
proof (induction matches arbitrary: voices lastEnd)
  case Nil
  show ?case by simp
next
  case (Cons m ms)
  have ne: "voices \<noteq> []" using Cons.prems by auto
  have "parseVoices_loop text (m # ms) voices lastEnd ! j =
      (add_prefix text m voices lastEnd @ [voice_of text m ms]) ! j"
    unfolding parseVoices_loop_step
    using Cons.prems length_add_prefix[OF ne, of "text" m lastEnd]
    by (intro Cons.IH) simp
  also have "\<dots> = voices ! j"
    using Cons.prems length_add_prefix[OF ne, of "text" m lastEnd]
    by (simp add: nth_append add_prefix_keep)
  finally show ?case .
qed

lemma parseVoices_loop_marker:
  "i + 1 < length (m # rest) \<Longrightarrow>
   parseVoices_loop text (m # rest) voices lastEnd !
     (length (add_prefix text m voices lastEnd) + i) =
     (let v = voice_of text ((m # rest) ! i) (drop (i + 1) (m # rest));
          le = lastEnd_of text ((m # rest) ! i) (drop (i + 1) (m # rest));
          nxt = m0 ((m # rest) ! (i + 1));
          prefix = TrimSpace (str_slice text le nxt)
      in if nxt > le \<and> prefix \<noteq> [] then v\<lparr>Text := Text v @ '' '' @ prefix\<rparr> else v)"
proof (induction i arbitrary: m rest voices lastEnd)
  case 0
  then obtain m' rest' where rest: "rest = m' # rest'" by (cases rest) auto
  let ?A = "add_prefix text m voices lastEnd"
  let ?v0 = "voice_of text m rest"
  let ?V = "?A @ [?v0]"
  let ?le1 = "lastEnd_of text m rest"
  let ?v1 = "voice_of text m' rest'"
  have lenV: "length (add_prefix text m' ?V ?le1) = length ?V"
    by (rule length_add_prefix) simp
  have "parseVoices_loop text (m # rest) voices lastEnd ! length ?A =
      parseVoices_loop text rest' (add_prefix text m' ?V ?le1 @ [?v1])
        (lastEnd_of text m' rest') ! length ?A"
    by (simp only: rest parseVoices_loop_step)
  also have "\<dots> = (add_prefix text m' ?V ?le1 @ [?v1]) ! length ?A"
    using lenV by (intro parseVoices_loop_keep) simp
  also have "\<dots> = add_prefix text m' ?V ?le1 ! (length ?V - 1)"
    using lenV by (simp add: nth_append)
  also have "\<dots> =
     (let prefix = TrimSpace (str_slice text ?le1 (m0 m')) in
      if m0 m' > ?le1 \<and> prefix \<noteq> []
      then (last ?V)\<lparr>Text := Text (last ?V) @ '' '' @ prefix\<rparr>
      else last ?V)"
    by (rule add_prefix_last) simp
  finally show ?case by (simp add: rest Let_def)
next
  case (Suc j)
  then obtain m' rest' where rest: "rest = m' # rest'" by (cases rest) auto
  let ?A = "add_prefix text m voices lastEnd"
  let ?V = "?A @ [voice_of text m rest]"
  let ?le1 = "lastEnd_of text m rest"
  have lenV: "length (add_prefix text m' ?V ?le1) = length ?A + 1"
    using length_add_prefix[of ?V "text" m' ?le1] by simp
  have j: "j + 1 < length (m' # rest')" using Suc.prems rest by simp
  have "parseVoices_loop text (m # rest) voices lastEnd = parseVoices_loop text rest ?V ?le1"
    by (rule parseVoices_loop_step)
  then have "parseVoices_loop text (m # rest) voices lastEnd ! (length ?A + Suc j) =
      parseVoices_loop text (m' # rest') ?V ?le1 ! (length (add_prefix text m' ?V ?le1) + j)"
    unfolding lenV by (simp add: rest)
  also note Suc.IH[OF j, of ?V ?le1]
  finally show ?case by (simp add: rest)
qed

lemma slice_drop: "str_slice s (a + j) b = drop j (str_slice s a b)"
  by (simp add: str_slice_def drop_take add.commute)

lemma TrimSpace_Nil: "TrimSpace [] = []"
  by code_simp

lemma slice_empty: "b \<le> a \<Longrightarrow> str_slice s a b = []"
  by (simp add: str_slice_def)

lemma parseVoices_loop_total_length:
  "length (parseVoices_loop text (m # rest) voices lastEnd) =
     length (add_prefix text m voices lastEnd) + length (m # rest)"
  unfolding parseVoices_loop_step
  by (subst parseVoices_loop_length) simp_all

text \<open>
  Claim C2, amended. Let a marker that is not the last have a span, from the end of the
  marker to the start of the next marker, that contains \<^verbatim>\<open></v>\<close>, first at offset \<open>k\<close>. Then the
  voice of that marker has the name of the marker as its speaker, and its text is the span
  before the closing token, trimmed, followed, when the span after the closing token is not
  blank, by one space and that content, trimmed. The voices of the markers are the last
  voices of the result, in order.
\<close>

theorem parseVoices_text_after_close:
  assumes "ms = voiceStartRegex_FindAllStringSubmatchIndex text"
    and "i + 1 < length ms"
    and "span = str_slice text (m1 (ms ! i)) (m0 (ms ! (i + 1)))"
    and "Index span ''</v>'' = int k"
    and "between = TrimSpace (drop (k + 4) span)"
  shows "length ms \<le> length (parseVoices text) \<and>
    parseVoices text ! (length (parseVoices text) - length ms + i) =
      \<lparr>Speaker = str_slice text (m2 (ms ! i)) (m3 (ms ! i)),
       Text = TrimSpace (take k span) @ (if between = [] then [] else '' '' @ between)\<rparr>"
proof -
  from assms(2) obtain m rest where ms: "ms = m # rest" by (cases ms) auto
  have pv: "parseVoices text = parseVoices_loop text (m # rest) [] 0"
    using assms(1)[symmetric] ms by (simp add: parseVoices_def Let_def)
  let ?A = "add_prefix text m [] 0"
  have len: "length (parseVoices text) = length ?A + length ms"
    unfolding pv ms by (rule parseVoices_loop_total_length)
  have dr: "drop (Suc i) ms = ms ! Suc i # drop (Suc (Suc i)) ms"
    using assms(2) by (simp add: Cons_nth_drop_Suc)
  have sp: "span_of text (ms ! i) (drop (Suc i) ms) = span"
    by (simp add: span_of_def dr assms(3))
  have v: "voice_of text (ms ! i) (drop (Suc i) ms) =
      \<lparr>Speaker = str_slice text (m2 (ms ! i)) (m3 (ms ! i)), Text = TrimSpace (take k span)\<rparr>"
    by (simp add: voice_of_def sp assms(4) Let_def)
  have le: "lastEnd_of text (ms ! i) (drop (Suc i) ms) = m1 (ms ! i) + k + 4"
    by (simp add: lastEnd_of_def sp assms(4) Let_def)
  have bt: "TrimSpace (str_slice text (m1 (ms ! i) + k + 4) (m0 (ms ! Suc i))) = between"
    using slice_drop[of "text" "m1 (ms ! i)" "k + 4" "m0 (ms ! (i + 1))"]
    by (simp add: assms(3,5) add.assoc)
  have gt: "between \<noteq> [] \<Longrightarrow> m0 (ms ! Suc i) > m1 (ms ! i) + k + 4"
  proof (rule ccontr)
    assume b: "between \<noteq> []" and "\<not> m0 (ms ! Suc i) > m1 (ms ! i) + k + 4"
    then have "str_slice text (m1 (ms ! i) + k + 4) (m0 (ms ! Suc i)) = []"
      by (intro slice_empty) simp
    with bt b show False by (simp add: TrimSpace_Nil)
  qed
  have "parseVoices text ! (length ?A + i) =
     (let v = voice_of text (ms ! i) (drop (i + 1) ms);
          le = lastEnd_of text (ms ! i) (drop (i + 1) ms);
          nxt = m0 (ms ! (i + 1));
          prefix = TrimSpace (str_slice text le nxt)
      in if nxt > le \<and> prefix \<noteq> [] then v\<lparr>Text := Text v @ '' '' @ prefix\<rparr> else v)"
    unfolding pv ms using assms(2) ms by (intro parseVoices_loop_marker) simp
  also have "\<dots> = \<lparr>Speaker = str_slice text (m2 (ms ! i)) (m3 (ms ! i)),
       Text = TrimSpace (take k span) @ (if between = [] then [] else '' '' @ between)\<rparr>"
    using gt by (auto simp: Let_def v le bt)
  finally show ?thesis using len by simp
qed

lemma stray_example:
  "parseVoices ''<v Alice>Hi</v> stray <v Bob>Hello</v>'' =
     [\<lparr>Speaker = ''Alice'', Text = ''Hi stray''\<rparr>, \<lparr>Speaker = ''Bob'', Text = ''Hello''\<rparr>]"
  by code_simp

text \<open>
  Against claim C2: the content between a closing \<^verbatim>\<open></v>\<close> and the next marker is not
  discarded. In \<^verbatim>\<open><v Alice>Hi</v> stray <v Bob>Hello</v>\<close> the word after Alice's closing token
  ends up in Alice's text.
\<close>

theorem parseVoices_stray_text_kept:
  "parseVoices ''<v Alice>Hi</v> stray <v Bob>Hello</v>'' =
     [\<lparr>Speaker = ''Alice'', Text = ''Hi stray''\<rparr>, \<lparr>Speaker = ''Bob'', Text = ''Hello''\<rparr>]"
  by (rule stray_example)

theorem parseVoices_text_after_close_witness:
  "voiceStartRegex_FindAllStringSubmatchIndex ''<v Alice>Hi</v> stray <v Bob>Hello</v>'' =
     [\<lparr>m0 = 0, m1 = 9, m2 = 3, m3 = 8\<rparr>, \<lparr>m0 = 22, m1 = 29, m2 = 25, m3 = 28\<rparr>] \<and>
   str_slice ''<v Alice>Hi</v> stray <v Bob>Hello</v>'' 9 22 = ''Hi</v> stray '' \<and>
   Index ''Hi</v> stray '' ''</v>'' = 2 \<and>
   TrimSpace (drop (2 + 4) ''Hi</v> stray '') = ''stray'' \<and>
   parseVoices ''<v Alice>Hi</v> stray <v Bob>Hello</v>'' ! 0 =
     \<lparr>Speaker = ''Alice'', Text = ''Hi stray''\<rparr>"
proof -
  let ?T = "''<v Alice>Hi</v> stray <v Bob>Hello</v>''"
  let ?ms = "[\<lparr>m0 = 0, m1 = 9, m2 = 3, m3 = 8\<rparr>, \<lparr>m0 = 22, m1 = 29, m2 = 25, m3 = 28\<rparr>]"
  have f: "voiceStartRegex_FindAllStringSubmatchIndex ?T = ?ms"
    by code_simp
  have sp: "str_slice ?T 9 22 = ''Hi</v> stray ''"
    by (simp add: str_slice_def)
  have ix: "Index ''Hi</v> stray '' ''</v>'' = int 2"
    by code_simp
  have b: "TrimSpace (drop (2 + 4) ''Hi</v> stray '') = ''stray''"
    by code_simp
  have t: "TrimSpace (take 2 ''Hi</v> stray '') = ''Hi''"
    by code_simp
  have nm: "str_slice ?T 3 8 = ''Alice''"
    by (simp add: str_slice_def)
  have "parseVoices ?T ! (length (parseVoices ?T) - length ?ms + 0) =
      \<lparr>Speaker = str_slice ?T (m2 (?ms ! 0)) (m3 (?ms ! 0)),
       Text = TrimSpace (take 2 ''Hi</v> stray '') @
         (if ''stray'' = [] then [] else '' '' @ ''stray'')\<rparr>"
    using parseVoices_text_after_close[of ?ms ?T 0 "''Hi</v> stray ''" 2 "''stray''"] f sp ix b
    by simp
  then have "parseVoices ?T ! 0 = \<lparr>Speaker = ''Alice'', Text = ''Hi stray''\<rparr>"
    by (simp add: stray_example t nm)
  with f sp ix b show ?thesis by simp
qed

text \<open>
  Claim C7. For every text, \<^verbatim>\<open>parseVoices\<close> returns at least one voice; and when the text
  contains no voice-open marker, it returns exactly one voice, with the empty speaker and
  the text itself, untrimmed.
\<close>

theorem parseVoices_nonempty_and_verbatim:
  "parseVoices text \<noteq> [] \<and>
   (\<not> has_voice_marker text \<longrightarrow> parseVoices text = [\<lparr>Speaker = [], Text = text\<rparr>])"
proof (cases "voiceStartRegex_FindAllStringSubmatchIndex text")
  case Nil
  then show ?thesis by (simp add: parseVoices_def)
next
  case (Cons m rest)
  then have "parseVoices text = parseVoices_loop text (m # rest) [] 0"
    by (simp add: parseVoices_def)
  then have "length (parseVoices text) = length (add_prefix text m [] 0) + length (m # rest)"
    by (simp only: parseVoices_loop_total_length)
  then have "parseVoices text \<noteq> []" by auto
  moreover have "has_voice_marker text" using Cons by (simp add: has_voice_marker_iff)
  ultimately show ?thesis by simp
qed

theorem parseVoices_nonempty_and_verbatim_witness:
  "parseVoices ''  plain <v >text  '' = [\<lparr>Speaker = [], Text = ''  plain <v >text  ''\<rparr>] \<and>
   \<not> has_voice_marker ''  plain <v >text  '' \<and>
   has_voice_marker ''<v Bob>Hello''"
proof -
  have n: "\<not> has_voice_marker ''  plain <v >text  ''"
    unfolding has_voice_marker_iff by code_simp
  have y: "has_voice_marker ''<v Bob>Hello''"
    unfolding has_voice_marker_iff by code_simp
  from parseVoices_nonempty_and_verbatim[of "''  plain <v >text  ''"] n y
  show ?thesis by simp
qed


end
